theory Spec2Isabelle
  imports Complex_Main "HOL-Library.Multiset"
begin

section \<open>Data model\<close>

text \<open>
  The index of package \<open>intree\<close> is a pair of flat slices: \<open>indexes\<close> holds, for every
  slot, the position of the interval in the caller's collection, and \<open>limits\<close> holds
  three numbers per slot: \<open>limits[3*i]\<close> the lower limit, \<open>limits[3*i+1]\<close> the
  upper limit and \<open>limits[3*i+2]\<close> the augmentation value.

  The limits are \<open>float64\<close> in the source. The code only compares them (\<open><\<close>, \<open>\<le>\<close>,
  \<open>>\<close>) and copies them, it never computes with them, so finite floats are modelled by
  the reals they denote. NaN is outside the model.

  A run-time panic of Go (index or slice bound out of range) is the error value
  \<open>IndexOutOfRange\<close>.
\<close>

datatype error = IndexOutOfRange

datatype Bounds = Bounds real real

fun Limits :: "Bounds \<Rightarrow> real \<times> real" where
  "Limits (Bounds lower upper) = (lower, upper)"

datatype 'v ValuedBounds = ValuedBounds real real 'v

fun LimitsV :: "'v ValuedBounds \<Rightarrow> real \<times> real" where
  "LimitsV (ValuedBounds lower upper v) = (lower, upper)"

fun Value :: "'v ValuedBounds \<Rightarrow> 'v" where
  "Value (ValuedBounds lower upper v) = v"

record INTree =
  indexes :: "int list"
  limits :: "real list"

section \<open>Construction\<close>

text \<open>
  Offsets into the slices during construction are loop indices, lengths and counters
  that start at 0 and only grow, so they are natural numbers here. The values stored
  in \<open>indexes\<close> are Go \<open>int\<close>s. The parameters \<open>limits\<close> and \<open>indexes\<close> of the
  source's functions are written \<open>lims\<close> and \<open>idxs\<close>, the full names being the
  fields of the record.

  The three tuple assignments of \<open>sort\<close> exchange slot \<open>p\<close> and slot \<open>r\<close> of both
  slices. Go evaluates every operand of a tuple assignment before it assigns, so the
  values written are the old ones. An access outside either slice panics.
\<close>

definition swap_slots ::
  "real list \<Rightarrow> int list \<Rightarrow> nat \<Rightarrow> nat \<Rightarrow> error + (real list \<times> int list)" where
  "swap_slots lims idxs p r =
     (if p < length idxs \<and> r < length idxs
         \<and> 3 * p + 2 < length lims \<and> 3 * r + 2 < length lims
      then Inr (lims[3 * p := lims ! (3 * r),
                       3 * p + 1 := lims ! (3 * r + 1),
                       3 * p + 2 := lims ! (3 * r + 2),
                       3 * r := lims ! (3 * p),
                       3 * r + 1 := lims ! (3 * p + 1),
                       3 * r + 2 := lims ! (3 * p + 2)],
                idxs[p := idxs ! r, r := idxs ! p])
      else Inl IndexOutOfRange)"

text \<open>
  The partition loop of \<open>sort\<close>: \<open>for i := range indexes\<close>, with the counter \<open>l\<close>
  and both slices as the loop state. The first argument is the list of the values of
  \<open>i\<close> still to come.
\<close>

fun partition_loop ::
  "nat list \<Rightarrow> nat \<Rightarrow> nat \<Rightarrow> real list \<Rightarrow> int list \<Rightarrow> error + (nat \<times> real list \<times> int list)" where
  "partition_loop [] r l lims idxs = Inr (l, lims, idxs)"
| "partition_loop (i # is) r l lims idxs =
     (if 3 * i < length lims \<and> 3 * r < length lims then
        if lims ! (3 * i) < lims ! (3 * r) then
          (case swap_slots lims idxs l i of
             Inl e \<Rightarrow> Inl e
           | Inr (lims', idxs') \<Rightarrow> partition_loop is r (l + 1) lims' idxs')
        else partition_loop is r l lims idxs
      else Inl IndexOutOfRange)"

lemma swap_slots_length:
  "swap_slots lims idxs p r = Inr (lims', idxs') \<Longrightarrow>
     length lims' = length lims \<and> length idxs' = length idxs"
  by (auto simp: swap_slots_def split: if_splits)

lemma partition_loop_length:
  "partition_loop is r l lims idxs = Inr (l', lims', idxs') \<Longrightarrow>
     length lims' = length lims \<and> length idxs' = length idxs"
proof (induction "is" arbitrary: l lims idxs)
  case Nil
  then show ?case by simp
next
  case (Cons i "is")
  then show ?case
    by (auto split: if_splits sum.splits dest!: swap_slots_length)
qed

text \<open>
  \<open>sort_slices\<close> is \<open>sort\<close>, the randomised quicksort of the source (the plain
  name is the list sort of the library). \<open>rand.Int()\<close> reads a global
  source of non-negative numbers: \<open>rand k\<close> is the value of its \<open>k\<close>-th call, and
  the number of calls made so far is passed through and returned.

  The recursive calls work on the sub-slices \<open>limits[:3*l]\<close>, \<open>indexes[:l]\<close> and
  \<open>limits[3*l+3:]\<close>, \<open>indexes[l+1:]\<close>, which share their storage with the slices
  of the caller: the result puts the two sorted parts back around slot \<open>l\<close>. A slice
  expression whose bound exceeds the length panics here (Go compares with the
  capacity, which is at least the length).
\<close>

function sort_slices ::
  "(nat \<Rightarrow> nat) \<Rightarrow> nat \<Rightarrow> real list \<Rightarrow> int list \<Rightarrow> error + (nat \<times> real list \<times> int list)" where
  "sort_slices rand k lims idxs =
     (if length idxs < 2 then Inr (k, lims, idxs)
      else
        let r = length idxs - 1;
            p = rand k mod length idxs
        in case swap_slots lims idxs p r of
             Inl e \<Rightarrow> Inl e
           | Inr (lims1, idxs1) \<Rightarrow>
        (case partition_loop [0..<length idxs1] r 0 lims1 idxs1 of
             Inl e \<Rightarrow> Inl e
           | Inr (l, lims2, idxs2) \<Rightarrow>
        (case swap_slots lims2 idxs2 l r of
             Inl e \<Rightarrow> Inl e
           | Inr (lims3, idxs3) \<Rightarrow>
        if 3 * l + 3 \<le> length lims3 \<and> l + 1 \<le> length idxs3 then
          (case sort_slices rand (k + 1) (take (3 * l) lims3) (take l idxs3) of
             Inl e \<Rightarrow> Inl e
           | Inr (k1, limsA, idxsA) \<Rightarrow>
          (case sort_slices rand k1 (drop (3 * l + 3) lims3) (drop (l + 1) idxs3) of
             Inl e \<Rightarrow> Inl e
           | Inr (k2, limsB, idxsB) \<Rightarrow>
               Inr (k2, limsA @ take 3 (drop (3 * l) lims3) @ limsB,
                        idxsA @ [idxs3 ! l] @ idxsB)))
        else Inl IndexOutOfRange)))"
  by pat_completeness auto
termination
proof (relation "measure (\<lambda>(rand, k, lims, idxs). length idxs)", goal_cases)
  case 1
  show ?case by simp
next
  case (2 rand k lims idxs r p x1 lims1 idxs1 x2 l y lims2 idxs2 x3 lims3 idxs3)
  then show ?case
    by (auto dest!: swap_slots_length partition_loop_length)
next
  case (3 rand k lims idxs r p x1 lims1 idxs1 x2 l y lims2 idxs2 x3 lims3 idxs3)
  then show ?case
    by (auto dest!: swap_slots_length partition_loop_length)
qed

declare sort_slices.simps [simp del]


text \<open>
  \<open>augment\<close>: the loop \<open>for idx := range indexes\<close> that looks for the largest upper
  limit of the current slice, starting from \<open>max := 0.0\<close>.
\<close>

fun max_loop :: "nat list \<Rightarrow> real list \<Rightarrow> real \<Rightarrow> error + real" where
  "max_loop [] lims mx = Inr mx"
| "max_loop (idx # rest) lims mx =
     (if 3 * idx + 1 < length lims then
        if lims ! (3 * idx + 1) > mx then max_loop rest lims (lims ! (3 * idx + 1))
        else max_loop rest lims mx
      else Inl IndexOutOfRange)"

text \<open>
  The root of a slice of \<open>n\<close> slots is the slot \<open>n >> 1\<close>; the value found by the
  loop is stored there, and \<open>augment\<close> recurses into the slots before and after it.
\<close>

definition augment_root :: "nat \<Rightarrow> nat" where
  "augment_root n = drop_bit 1 n"

lemma augment_root_div: "augment_root n = n div 2"
  by (simp add: augment_root_def drop_bit_eq_div)

function augment :: "real list \<Rightarrow> int list \<Rightarrow> error + real list" where
  "augment lims idxs =
     (if length idxs < 1 then Inr lims
      else
        case max_loop [0..<length idxs] lims 0 of
          Inl e \<Rightarrow> Inl e
        | Inr mx \<Rightarrow>
        let r = augment_root (length idxs) in
        if 3 * r + 2 < length lims \<and> r + 1 \<le> length idxs then
          let lims1 = lims[3 * r + 2 := mx] in
          (case augment (take (3 * r) lims1) (take r idxs) of
             Inl e \<Rightarrow> Inl e
           | Inr limsA \<Rightarrow>
          (case augment (drop (3 * r + 3) lims1) (drop (r + 1) idxs) of
             Inl e \<Rightarrow> Inl e
           | Inr limsB \<Rightarrow> Inr (limsA @ take 3 (drop (3 * r) lims1) @ limsB)))
        else Inl IndexOutOfRange)"
  by pat_completeness auto
termination
  by (relation "measure (\<lambda>(lims, idxs). length idxs)") auto

declare augment.simps [simp del]

text \<open>
  The first loop of \<open>buildTree\<close>, \<open>for i, v := range bounds\<close>, over the pairs of
  position and element still to come; \<open>get\<close> stands for the method \<open>Limits\<close> of
  the element.
\<close>

fun fill_loop ::
  "('b \<Rightarrow> real \<times> real) \<Rightarrow> (nat \<times> 'b) list \<Rightarrow> real list \<Rightarrow> int list \<Rightarrow> error + (real list \<times> int list)" where
  "fill_loop get [] lims idxs = Inr (lims, idxs)"
| "fill_loop get ((i, v) # rest) lims idxs =
     (if i < length idxs \<and> 3 * i + 2 < length lims then
        (case get v of (l, u) \<Rightarrow>
           fill_loop get rest (lims[3 * i := l, 3 * i + 1 := u, 3 * i + 2 := 0])
             (idxs[i := int i]))
      else Inl IndexOutOfRange)"

definition buildTree :: "(nat \<Rightarrow> nat) \<Rightarrow> nat \<Rightarrow> Bounds list \<Rightarrow> error + INTree" where
  "buildTree rand k bounds =
     (case fill_loop Limits (enumerate 0 bounds)
             (replicate (3 * length bounds) 0) (replicate (length bounds) 0) of
        Inl e \<Rightarrow> Inl e
      | Inr (lims1, idxs1) \<Rightarrow>
     (case sort_slices rand k lims1 idxs1 of
        Inl e \<Rightarrow> Inl e
      | Inr (k', lims2, idxs2) \<Rightarrow>
     (case augment lims2 idxs2 of
        Inl e \<Rightarrow> Inl e
      | Inr lims3 \<Rightarrow> Inr \<lparr>indexes = idxs2, limits = lims3\<rparr>)))"

definition buildTreeV :: "(nat \<Rightarrow> nat) \<Rightarrow> nat \<Rightarrow> 'v ValuedBounds list \<Rightarrow> error + INTree" where
  "buildTreeV rand k bounds =
     (case fill_loop LimitsV (enumerate 0 bounds)
             (replicate (3 * length bounds) 0) (replicate (length bounds) 0) of
        Inl e \<Rightarrow> Inl e
      | Inr (lims1, idxs1) \<Rightarrow>
     (case sort_slices rand k lims1 idxs1 of
        Inl e \<Rightarrow> Inl e
      | Inr (k', lims2, idxs2) \<Rightarrow>
     (case augment lims2 idxs2 of
        Inl e \<Rightarrow> Inl e
      | Inr lims3 \<Rightarrow> Inr \<lparr>indexes = idxs2, limits = lims3\<rparr>)))"

definition NewINTree :: "(nat \<Rightarrow> nat) \<Rightarrow> nat \<Rightarrow> Bounds list \<Rightarrow> error + INTree" where
  "NewINTree rand k bounds = buildTree rand k bounds"

definition NewINTreeV :: "(nat \<Rightarrow> nat) \<Rightarrow> nat \<Rightarrow> 'v ValuedBounds list \<Rightarrow> error + INTree" where
  "NewINTreeV rand k bounds = buildTreeV rand k bounds"

section \<open>Query\<close>

text \<open>
  The stack \<open>idxStock\<close> holds Go \<open>int\<close>s and starts as \<open>{0, len(t.indexes) - 1}\<close>,
  which is \<open>{0, -1}\<close> for the empty index, so the query works on integers. Reading a
  slice at an \<open>int\<close> panics outside \<open>0 \<le> i < len\<close>.
\<close>

definition slice_at :: "'a list \<Rightarrow> int \<Rightarrow> error + 'a" where
  "slice_at xs i = (if 0 \<le> i \<and> i < int (length xs) then Inr (xs ! nat i) else Inl IndexOutOfRange)"

text \<open>
  \<open>x := s[len(s)-1]; s = s[:len(s)-1]\<close>: both the read and the slice expression panic
  on the empty slice.
\<close>

definition pop :: "int list \<Rightarrow> error + (int \<times> int list)" where
  "pop idxStock = (if idxStock = [] then Inl IndexOutOfRange else Inr (last idxStock, butlast idxStock))"

text \<open>
  \<open>int(math.Ceil(float64(lBoundIdx+rBoundIdx) / 2.0))\<close>. The conversion to
  \<open>float64\<close> and the division by two are exact below \<open>2^53\<close>, far above the
  length any slice can have.
\<close>

definition centerIdx :: "int \<Rightarrow> int \<Rightarrow> int" where
  "centerIdx lBoundIdx rBoundIdx = \<lceil>real_of_int (lBoundIdx + rBoundIdx) / 2\<rceil>"

text \<open>One round of the loop of \<open>Including\<close> on the state \<open>(idxStock, result)\<close>.\<close>

definition Including_step :: "INTree \<Rightarrow> real \<Rightarrow> int list \<times> int list \<Rightarrow> error + (int list \<times> int list)" where
  "Including_step t val s =
     (case s of (idxStock, result) \<Rightarrow>
     (case pop idxStock of Inl e \<Rightarrow> Inl e | Inr (rBoundIdx, idxStock1) \<Rightarrow>
     (case pop idxStock1 of Inl e \<Rightarrow> Inl e | Inr (lBoundIdx, idxStock2) \<Rightarrow>
      if lBoundIdx = rBoundIdx + 1 then Inr (idxStock2, result)
      else
        let c = centerIdx lBoundIdx rBoundIdx in
        (case slice_at (limits t) (3 * c + 2) of Inl e \<Rightarrow> Inl e | Inr lowerLimit \<Rightarrow>
        let idxStock3 = (if val \<le> lowerLimit then idxStock2 @ [lBoundIdx, c - 1] else idxStock2) in
        (case slice_at (limits t) (3 * c) of Inl e \<Rightarrow> Inl e | Inr l \<Rightarrow>
        if l \<le> val then
          let idxStock4 = idxStock3 @ [c + 1, rBoundIdx] in
          (case slice_at (limits t) (3 * c + 1) of Inl e \<Rightarrow> Inl e | Inr upperLimit \<Rightarrow>
          if val \<le> upperLimit then
            (case slice_at (indexes t) c of Inl e \<Rightarrow> Inl e
             | Inr orig \<Rightarrow> Inr (idxStock4, result @ [orig]))
          else Inr (idxStock4, result))
        else Inr (idxStock3, result))))))"

text \<open>
  The loop \<open>for len(idxStock) > 0\<close>. Nothing in its text bounds the number of rounds,
  so it is a partial function: \<open>None\<close> is a loop that never ends, \<open>Some (Inl e)\<close> a
  panic and \<open>Some (Inr result)\<close> the returned slice.
\<close>

partial_function (option) Including_loop ::
  "INTree \<Rightarrow> real \<Rightarrow> int list \<times> int list \<Rightarrow> (error + int list) option" where
  "Including_loop t val s =
     (if length (fst s) > 0 then
        (case Including_step t val s of
           Inl e \<Rightarrow> Some (Inl e)
         | Inr s' \<Rightarrow> Including_loop t val s')
      else Some (Inr (snd s)))"

declare Including_loop.simps [code]

definition Including :: "INTree \<Rightarrow> real \<Rightarrow> (error + int list) option" where
  "Including t val = Including_loop t val ([0, int (length (indexes t)) - 1], [])"

text \<open>
  The state \<open>(idxStock, result)\<close> at the head of the loop after \<open>j\<close> rounds, or \<open>None\<close>
  when the loop has ended or panicked before.
\<close>

fun Including_state :: "INTree \<Rightarrow> real \<Rightarrow> nat \<Rightarrow> (int list \<times> int list) option" where
  "Including_state t val 0 = Some ([0, int (length (indexes t)) - 1], [])"
| "Including_state t val (Suc j) =
     (case Including_state t val j of
        None \<Rightarrow> None
      | Some s \<Rightarrow>
          if length (fst s) > 0 then
            (case Including_step t val s of Inl e \<Rightarrow> None | Inr s' \<Rightarrow> Some s')
          else None)"

section \<open>Notions of the specification\<close>

text \<open>
  The arrays the specification speaks of: \<open>lower[i]\<close>, \<open>upper[i]\<close> and
  \<open>subtreeMax[i]\<close> are the three numbers of slot \<open>i\<close> of \<open>limits\<close>.
\<close>

definition lower_limits :: "INTree \<Rightarrow> real list" where
  "lower_limits t = map (\<lambda>i. limits t ! (3 * i)) [0..<length (indexes t)]"

definition upper_limits :: "INTree \<Rightarrow> real list" where
  "upper_limits t = map (\<lambda>i. limits t ! (3 * i + 1)) [0..<length (indexes t)]"

definition subtree_maxes :: "INTree \<Rightarrow> real list" where
  "subtree_maxes t = map (\<lambda>i. limits t ! (3 * i + 2)) [0..<length (indexes t)]"

text \<open>
  The brute-force scan of the caller's collection that the specification compares the
  query with: the positions whose interval contains \<open>val\<close>, both ends included.
\<close>

definition linear_scan :: "Bounds list \<Rightarrow> real \<Rightarrow> int list" where
  "linear_scan bounds val =
     map int (filter (\<lambda>i. fst (Limits (bounds ! i)) \<le> val \<and> val \<le> snd (Limits (bounds ! i)))
       [0..<length bounds])"

text \<open>
  A stack of ranges as the query may hold it: pairs \<open>(l, r)\<close> with \<open>0 \<le> l\<close>,
  \<open>r \<le> n - 1\<close> and \<open>l \<le> r + 1\<close>.
\<close>

fun ranges_ok :: "nat \<Rightarrow> int list \<Rightarrow> bool" where
  "ranges_ok n [] = True"
| "ranges_ok n [x] = False"
| "ranges_ok n (l # r # rest) = (0 \<le> l \<and> r \<le> int n - 1 \<and> l \<le> r + 1 \<and> ranges_ok n rest)"

text \<open>
  The variant of the augmentation that the specification allows in place of the scan:
  the value of a root is the largest of \<open>upper[center]\<close>, \<open>subtreeMax[left_center]\<close>
  and \<open>subtreeMax[right_center]\<close>, a child that does not exist contributing nothing.
  It follows the words of the specification, not the source.
\<close>

function augment_combined :: "real list \<Rightarrow> int list \<Rightarrow> error + real list" where
  "augment_combined lims idxs =
     (if length idxs < 1 then Inr lims
      else
        let r = augment_root (length idxs) in
        if 3 * r + 2 < length lims \<and> r + 1 \<le> length idxs then
          (case augment_combined (take (3 * r) lims) (take r idxs) of
             Inl e \<Rightarrow> Inl e
           | Inr limsA \<Rightarrow>
          (case augment_combined (drop (3 * r + 3) lims) (drop (r + 1) idxs) of
             Inl e \<Rightarrow> Inl e
           | Inr limsB \<Rightarrow>
              let upper = lims ! (3 * r + 1);
                  m1 = (if 0 < r then max upper (limsA ! (3 * augment_root r + 2)) else upper);
                  nr = length idxs - (r + 1);
                  m2 = (if 0 < nr then max m1 (limsB ! (3 * augment_root nr + 2)) else m1)
              in Inr (limsA @ [lims ! (3 * r), upper, m2] @ limsB)))
        else Inl IndexOutOfRange)"
  by pat_completeness auto
termination
  by (relation "measure (\<lambda>(lims, idxs). length idxs)") auto

declare augment_combined.simps [simp del]

section \<open>Slots as tuples\<close>

text \<open>
  For the proofs, slot \<open>i\<close> of the two slices is read as one tuple: original position,
  lower limit, upper limit and augmentation value. \<open>walk\<close> is the recursive descent
  that the loop of \<open>Including\<close> simulates with its stack, \<open>augmented\<close> is what
  \<open>augment\<close> establishes (the largest upper limit of the range or \<open>0\<close>, whichever
  is larger), \<open>exactly_augmented\<close> is the same without the \<open>0\<close>, \<open>hits\<close> is the set
  of positions a query has to return and \<open>well_built\<close> collects what construction
  guarantees.
\<close>

type_synonym slot = "int \<times> real \<times> real \<times> real"

definition slot_at :: "real list \<Rightarrow> int list \<Rightarrow> nat \<Rightarrow> slot" where
  "slot_at lims idxs i = (idxs ! i, lims ! (3 * i), lims ! (3 * i + 1), lims ! (3 * i + 2))"

definition slots :: "real list \<Rightarrow> int list \<Rightarrow> slot list" where
  "slots lims idxs = map (slot_at lims idxs) [0..<length idxs]"

definition orig_of :: "slot \<Rightarrow> int" where "orig_of x = fst x"

definition lower_of :: "slot \<Rightarrow> real" where "lower_of x = fst (snd x)"

definition upper_of :: "slot \<Rightarrow> real" where "upper_of x = fst (snd (snd x))"

definition max_of :: "slot \<Rightarrow> real" where "max_of x = snd (snd (snd x))"

definition initial_slots :: "('b \<Rightarrow> real \<times> real) \<Rightarrow> 'b list \<Rightarrow> slot list" where
  "initial_slots get bounds =
     map (\<lambda>j. (int j, fst (get (bounds ! j)), snd (get (bounds ! j)), 0)) [0..<length bounds]"

definition entry_of :: "slot \<Rightarrow> int \<times> real \<times> real" where
  "entry_of x = (orig_of x, lower_of x, upper_of x)"

function augmented :: "slot list \<Rightarrow> bool" where
  "augmented S =
     (if S = [] then True
      else max_of (S ! (length S div 2)) = Max (insert 0 (upper_of ` set S))
         \<and> augmented (take (length S div 2) S)
         \<and> augmented (drop (length S div 2 + 1) S))"
  by pat_completeness auto
termination
  by (relation "measure length") auto

declare augmented.simps [simp del]

function exactly_augmented :: "slot list \<Rightarrow> bool" where
  "exactly_augmented S =
     (if S = [] then True
      else max_of (S ! (length S div 2)) = Max (upper_of ` set S)
         \<and> exactly_augmented (take (length S div 2) S)
         \<and> exactly_augmented (drop (length S div 2 + 1) S))"
  by pat_completeness auto
termination
  by (relation "measure length") auto

declare exactly_augmented.simps [simp del]

function walk :: "real \<Rightarrow> slot list \<Rightarrow> int list" where
  "walk val S =
     (if S = [] then []
      else
        (if lower_of (S ! (length S div 2)) \<le> val \<and> val \<le> upper_of (S ! (length S div 2))
         then [orig_of (S ! (length S div 2))] else []) @
        (if lower_of (S ! (length S div 2)) \<le> val
         then walk val (drop (length S div 2 + 1) S) else []) @
        (if val \<le> max_of (S ! (length S div 2))
         then walk val (take (length S div 2) S) else []))"
  by pat_completeness auto
termination
  by (relation "measure (\<lambda>(val, S). length S)") auto

declare walk.simps [simp del]

definition hits :: "real \<Rightarrow> slot list \<Rightarrow> int set" where
  "hits val S = orig_of ` {x \<in> set S. lower_of x \<le> val \<and> val \<le> upper_of x}"

definition well_built :: "('b \<Rightarrow> real \<times> real) \<Rightarrow> 'b list \<Rightarrow> INTree \<Rightarrow> bool" where
  "well_built get bounds t \<longleftrightarrow>
     length (limits t) = 3 * length (indexes t)
     \<and> length (indexes t) = length bounds
     \<and> mset (map entry_of (slots (limits t) (indexes t))) = mset (map entry_of (initial_slots get bounds))
     \<and> sorted (map lower_of (slots (limits t) (indexes t)))
     \<and> augmented (slots (limits t) (indexes t))"

section \<open>Lemmas on the construction\<close>

subsection \<open>Reading and rearranging slots\<close>

lemma length_slots [simp]: "length (slots lims idxs) = length idxs"
  by (simp add: slots_def)

lemma nth_slots: "i < length idxs \<Longrightarrow> slots lims idxs ! i = slot_at lims idxs i"
  by (simp add: slots_def)

lemma swap_slots_Inr:
  assumes "length lims = 3 * length idxs" "p < length idxs" "r < length idxs"
  shows "\<exists>lims' idxs'. swap_slots lims idxs p r = Inr (lims', idxs')"
  using assms by (simp add: swap_slots_def)

lemma slots_swap:
  assumes sw: "swap_slots lims idxs p r = Inr (lims', idxs')"
    and wf: "length lims = 3 * length idxs"
  shows "slots lims' idxs' = (slots lims idxs)[p := slots lims idxs ! r, r := slots lims idxs ! p]"
proof (rule nth_equalityI)
  from sw have b: "p < length idxs" "r < length idxs"
    and l': "lims' = lims[3 * p := lims ! (3 * r), 3 * p + 1 := lims ! (3 * r + 1),
                       3 * p + 2 := lims ! (3 * r + 2), 3 * r := lims ! (3 * p),
                       3 * r + 1 := lims ! (3 * p + 1), 3 * r + 2 := lims ! (3 * p + 2)]"
    and i': "idxs' = idxs[p := idxs ! r, r := idxs ! p]"
    by (auto simp: swap_slots_def split: if_splits)
  show "length (slots lims' idxs') = length ((slots lims idxs)[p := slots lims idxs ! r, r := slots lims idxs ! p])"
    by (simp add: i')
  fix i assume "i < length (slots lims' idxs')"
  then have i: "i < length idxs" by (simp add: i')
  have a0: "lims' ! (3 * i) = (if i = r then lims ! (3 * p) else if i = p then lims ! (3 * r) else lims ! (3 * i))"
    using i b wf unfolding l' by (simp add: nth_list_update)
  have a1: "lims' ! (3 * i + 1) = (if i = r then lims ! (3 * p + 1) else if i = p then lims ! (3 * r + 1) else lims ! (3 * i + 1))"
    using i b wf unfolding l' by (simp add: nth_list_update)
  have a2: "lims' ! (3 * i + 2) = (if i = r then lims ! (3 * p + 2) else if i = p then lims ! (3 * r + 2) else lims ! (3 * i + 2))"
    using i b wf unfolding l' by (simp add: nth_list_update)
  have a3: "idxs' ! i = (if i = r then idxs ! p else if i = p then idxs ! r else idxs ! i)"
    using i b unfolding i' by (simp add: nth_list_update)
  show "slots lims' idxs' ! i = (slots lims idxs)[p := slots lims idxs ! r, r := slots lims idxs ! p] ! i"
    using i b a0 a1 a2 a3 by (simp add: nth_slots i' nth_list_update slot_at_def)
qed

lemma slots_take:
  assumes "length lims = 3 * length idxs"
  shows "slots (take (3 * k) lims) (take k idxs) = take k (slots lims idxs)"
  using assms by (intro nth_equalityI) (simp_all add: nth_slots slot_at_def)

lemma slots_drop:
  assumes "length lims = 3 * length idxs"
  shows "slots (drop (3 * k) lims) (drop k idxs) = drop k (slots lims idxs)"
  using assms by (intro nth_equalityI) (simp_all add: nth_slots slot_at_def algebra_simps)

lemma slots_Nil [simp]: "slots lims [] = []"
  by (simp add: slots_def)

lemma slots_append:
  assumes "length limsA = 3 * length idxsA"
  shows "slots (limsA @ limsB) (idxsA @ idxsB) = slots limsA idxsA @ slots limsB idxsB"
proof (rule nth_equalityI)
  show "length (slots (limsA @ limsB) (idxsA @ idxsB)) = length (slots limsA idxsA @ slots limsB idxsB)"
    by simp
  fix i assume "i < length (slots (limsA @ limsB) (idxsA @ idxsB))"
  then have i: "i < length idxsA + length idxsB" by simp
  show "slots (limsA @ limsB) (idxsA @ idxsB) ! i = (slots limsA idxsA @ slots limsB idxsB) ! i"
  proof (cases "i < length idxsA")
    case True
    then show ?thesis using assms by (simp add: nth_slots slot_at_def nth_append)
  next
    case False
    define j where "j = i - length idxsA"
    with False have ij: "i = length idxsA + j" by simp
    have e: "3 * (length idxsA + j) - 3 * length idxsA = 3 * j"
      "Suc (3 * (length idxsA + j)) - 3 * length idxsA = Suc (3 * j)"
      "Suc (Suc (3 * (length idxsA + j))) - 3 * length idxsA = Suc (Suc (3 * j))" by simp_all
    from i ij have "j < length idxsB" by simp
    then show ?thesis using assms unfolding ij
      by (simp add: nth_slots slot_at_def nth_append e del: mult_Suc_right)
  qed
qed

subsection \<open>The partition loop\<close>

text \<open>
  With the pivot in the last slot \<open>r\<close>, the loop keeps the slots below \<open>l\<close> smaller than
  the pivot and the slots from \<open>l\<close> up to the current \<open>i\<close> at least as large; it never
  panics and only permutes the slots.
\<close>

lemma lims_lower: "i < length idxs \<Longrightarrow> lims ! (3 * i) = lower_of (slots lims idxs ! i)"
  by (simp add: nth_slots slot_at_def lower_of_def)

lemma partition_loop_spec:
  assumes "length lims = 3 * length idxs" and "Suc r = length idxs" and "i \<le> length idxs"
    and "l \<le> i" and "l \<le> r"
    and "\<forall>j<l. lower_of (slots lims idxs ! j) < piv"
    and "\<forall>j. l \<le> j \<and> j < i \<longrightarrow> piv \<le> lower_of (slots lims idxs ! j)"
    and "lower_of (slots lims idxs ! r) = piv"
  shows "\<exists>l' lims' idxs'. partition_loop [i..<length idxs] r l lims idxs = Inr (l', lims', idxs')
           \<and> length lims' = length lims \<and> length idxs' = length idxs
           \<and> mset (slots lims' idxs') = mset (slots lims idxs)
           \<and> l' \<le> r
           \<and> (\<forall>j<l'. lower_of (slots lims' idxs' ! j) < piv)
           \<and> (\<forall>j. l' \<le> j \<and> j < length idxs \<longrightarrow> piv \<le> lower_of (slots lims' idxs' ! j))
           \<and> lower_of (slots lims' idxs' ! r) = piv"
  using assms
proof (induction "length idxs - i" arbitrary: i l lims idxs)
  case 0
  then have "[i..<length idxs] = []" by simp
  with 0 show ?case by simp
next
  case (Suc d)
  let ?S = "slots lims idxs"
  from Suc.hyps(2) have i: "i < length idxs" by simp
  then have upt: "[i..<length idxs] = i # [Suc i..<length idxs]" by (simp add: upt_conv_Cons)
  from Suc.prems(2) have r: "r < length idxs" by simp
  have guard: "3 * i < length lims \<and> 3 * r < length lims"
    using i r Suc.prems(1) by simp
  have test: "lims ! (3 * i) < lims ! (3 * r) \<longleftrightarrow> lower_of (?S ! i) < piv"
    using i r Suc.prems(8) by (simp add: lims_lower)
  show ?case
  proof (cases "lower_of (?S ! i) < piv")
    case True
    with Suc.prems(8) have "i \<noteq> r" by auto
    with i Suc.prems(2) have ir: "i < r" by simp
    from Suc.prems(4) i have l: "l < length idxs" by simp
    obtain lims1 idxs1 where sw: "swap_slots lims idxs l i = Inr (lims1, idxs1)"
      using swap_slots_Inr [OF Suc.prems(1) l i] by blast
    have len1: "length lims1 = length lims" "length idxs1 = length idxs"
      using swap_slots_length [OF sw] by simp_all
    have S1: "slots lims1 idxs1 = ?S[l := ?S ! i, i := ?S ! l]"
      by (rule slots_swap [OF sw Suc.prems(1)])
    have ms1: "mset (slots lims1 idxs1) = mset ?S"
      unfolding S1 using i l by (simp add: mset_swap)
    have p1: "length lims1 = 3 * length idxs1" using len1 Suc.prems(1) by simp
    have p2: "Suc r = length idxs1" using len1 Suc.prems(2) by simp
    have p3: "Suc i \<le> length idxs1" using len1 i by simp
    have p4: "l + 1 \<le> Suc i" using Suc.prems(4) by simp
    have p5: "l + 1 \<le> r" using Suc.prems(4) ir by simp
    have p6: "\<forall>j<l + 1. lower_of (slots lims1 idxs1 ! j) < piv"
    proof (intro allI impI)
      fix j assume "j < l + 1"
      then consider "j < l" | "j = l" by linarith
      then show "lower_of (slots lims1 idxs1 ! j) < piv"
      proof cases
        case 1
        with Suc.prems(4) have "j \<noteq> i" "j \<noteq> l" by simp_all
        then have "slots lims1 idxs1 ! j = ?S ! j" unfolding S1 by simp
        with 1 Suc.prems(6) show ?thesis by simp
      next
        case 2
        then have "slots lims1 idxs1 ! j = ?S ! i"
          unfolding S1 using l i by (cases "l = i") simp_all
        with True show ?thesis by simp
      qed
    qed
    have p7: "\<forall>j. l + 1 \<le> j \<and> j < Suc i \<longrightarrow> piv \<le> lower_of (slots lims1 idxs1 ! j)"
    proof (intro allI impI)
      fix j assume j: "l + 1 \<le> j \<and> j < Suc i"
      then consider "j < i" | "j = i" by linarith
      then show "piv \<le> lower_of (slots lims1 idxs1 ! j)"
      proof cases
        case 1
        with j have "j \<noteq> i" "j \<noteq> l" by simp_all
        then have "slots lims1 idxs1 ! j = ?S ! j" unfolding S1 by simp
        with 1 j Suc.prems(7) show ?thesis by simp
      next
        case 2
        with j have li: "l < i" by simp
        from 2 have "slots lims1 idxs1 ! j = ?S ! l"
          unfolding S1 using i by simp
        with li Suc.prems(7) show ?thesis by simp
      qed
    qed
    have p8: "lower_of (slots lims1 idxs1 ! r) = piv"
    proof -
      from ir Suc.prems(4) have "r \<noteq> i" "r \<noteq> l" by simp_all
      then have "slots lims1 idxs1 ! r = ?S ! r" unfolding S1 by simp
      with Suc.prems(8) show ?thesis by simp
    qed
    have d: "d = length idxs1 - Suc i" using Suc.hyps(2) len1 by simp
    from Suc.hyps(1) [OF d p1 p2 p3 p4 p5 p6 p7 p8]
    obtain l' lims' idxs' where
      res: "partition_loop [Suc i..<length idxs1] r (l + 1) lims1 idxs1 = Inr (l', lims', idxs')"
      and props: "length lims' = length lims1" "length idxs' = length idxs1"
        "mset (slots lims' idxs') = mset (slots lims1 idxs1)" "l' \<le> r"
        "\<forall>j<l'. lower_of (slots lims' idxs' ! j) < piv"
        "\<forall>j. l' \<le> j \<and> j < length idxs1 \<longrightarrow> piv \<le> lower_of (slots lims' idxs' ! j)"
        "lower_of (slots lims' idxs' ! r) = piv"
      by blast
    have "partition_loop [i..<length idxs] r l lims idxs = Inr (l', lims', idxs')"
      unfolding upt using guard test True sw res len1 by simp
    with props len1 ms1 show ?thesis by simp
  next
    case False
    have p7: "\<forall>j. l \<le> j \<and> j < Suc i \<longrightarrow> piv \<le> lower_of (?S ! j)"
    proof (intro allI impI)
      fix j assume j: "l \<le> j \<and> j < Suc i"
      then consider "j < i" | "j = i" by linarith
      then show "piv \<le> lower_of (?S ! j)"
      proof cases
        case 1
        with j Suc.prems(7) show ?thesis by simp
      next
        case 2
        with False show ?thesis by simp
      qed
    qed
    have p3: "Suc i \<le> length idxs" using i by simp
    have p4: "l \<le> Suc i" using Suc.prems(4) by simp
    have d: "d = length idxs - Suc i" using Suc.hyps(2) by simp
    from Suc.hyps(1) [OF d Suc.prems(1) Suc.prems(2) p3 p4 Suc.prems(5) Suc.prems(6) p7 Suc.prems(8)]
    obtain l' lims' idxs' where
      res: "partition_loop [Suc i..<length idxs] r l lims idxs = Inr (l', lims', idxs')"
      and props: "length lims' = length lims" "length idxs' = length idxs"
        "mset (slots lims' idxs') = mset (slots lims idxs)" "l' \<le> r"
        "\<forall>j<l'. lower_of (slots lims' idxs' ! j) < piv"
        "\<forall>j. l' \<le> j \<and> j < length idxs \<longrightarrow> piv \<le> lower_of (slots lims' idxs' ! j)"
        "lower_of (slots lims' idxs' ! r) = piv"
      by blast
    have "partition_loop [i..<length idxs] r l lims idxs = Inr (l', lims', idxs')"
      unfolding upt using guard test False res by simp
    with props show ?thesis by simp
  qed
qed

subsection \<open>The quicksort\<close>

text \<open>
  For every pivot sequence \<open>sort\<close> returns without panic a permutation of the slots
  whose lower limits are sorted.
\<close>

lemma slots_mid:
  assumes "length lims = 3 * length idxs" and "l < length idxs"
  shows "slots (take 3 (drop (3 * l) lims)) [idxs ! l] = [slots lims idxs ! l]"
  using assms by (simp add: slots_def slot_at_def)

lemma slots_rebuild:
  assumes "length limsA = 3 * length idxsA" and "length lims = 3 * length idxs" and "l < length idxs"
  shows "slots (limsA @ take 3 (drop (3 * l) lims) @ limsB) (idxsA @ [idxs ! l] @ idxsB) =
    slots limsA idxsA @ [slots lims idxs ! l] @ slots limsB idxsB"
proof -
  have "length (take 3 (drop (3 * l) lims)) = 3 * length [idxs ! l]"
    using assms(2,3) by simp
  then show ?thesis
    using assms by (simp only: slots_append slots_mid)
qed

lemma sort_slices_spec:
  assumes "length lims = 3 * length idxs"
  shows "\<exists>k' lims' idxs'. sort_slices rand k lims idxs = Inr (k', lims', idxs')
           \<and> length lims' = length lims \<and> length idxs' = length idxs
           \<and> mset (slots lims' idxs') = mset (slots lims idxs)
           \<and> sorted (map lower_of (slots lims' idxs'))"
  using assms
proof (induction "length idxs" arbitrary: k lims idxs rule: less_induct)
  case less
  note wf = less.prems
  let ?n = "length idxs"
  show ?case
  proof (cases "?n < 2")
    case True
    then have "length (map lower_of (slots lims idxs)) \<le> 1" by simp
    then have "sorted (map lower_of (slots lims idxs))" by (rule sorted01)
    moreover have "sort_slices rand k lims idxs = Inr (k, lims, idxs)"
      using True by (subst sort_slices.simps) simp
    ultimately show ?thesis by simp
  next
    case False
    define r where "r = ?n - 1"
    define p where "p = rand k mod ?n"
    from False have r: "r < ?n" "Suc r = ?n" by (cases idxs; simp add: r_def)+
    from False have "0 < ?n" by (cases idxs) simp_all
    then have p: "p < ?n" unfolding p_def by (rule mod_less_divisor)
    let ?S = "slots lims idxs"
    obtain lims1 idxs1 where sw1: "swap_slots lims idxs p r = Inr (lims1, idxs1)"
      using swap_slots_Inr [OF wf p r(1)] by blast
    have len1: "length lims1 = length lims" "length idxs1 = ?n"
      using swap_slots_length [OF sw1] by simp_all
    have wf1: "length lims1 = 3 * length idxs1" using len1 wf by simp
    have ms1: "mset (slots lims1 idxs1) = mset ?S"
      unfolding slots_swap [OF sw1 wf] using p r by (simp add: mset_swap)
    define piv where "piv = lower_of (slots lims1 idxs1 ! r)"
    have "\<exists>l lims2 idxs2. partition_loop [0..<length idxs1] r 0 lims1 idxs1 = Inr (l, lims2, idxs2)
           \<and> length lims2 = length lims1 \<and> length idxs2 = length idxs1
           \<and> mset (slots lims2 idxs2) = mset (slots lims1 idxs1)
           \<and> l \<le> r
           \<and> (\<forall>j<l. lower_of (slots lims2 idxs2 ! j) < piv)
           \<and> (\<forall>j. l \<le> j \<and> j < length idxs1 \<longrightarrow> piv \<le> lower_of (slots lims2 idxs2 ! j))
           \<and> lower_of (slots lims2 idxs2 ! r) = piv"
      by (rule partition_loop_spec [OF wf1]) (use r len1 piv_def in simp_all)
    then obtain l lims2 idxs2 where
      part: "partition_loop [0..<length idxs1] r 0 lims1 idxs1 = Inr (l, lims2, idxs2)"
      and len2: "length lims2 = length lims1" "length idxs2 = length idxs1"
      and ms2: "mset (slots lims2 idxs2) = mset (slots lims1 idxs1)"
      and lr: "l \<le> r"
      and lt2: "\<forall>j<l. lower_of (slots lims2 idxs2 ! j) < piv"
      and ge2: "\<forall>j. l \<le> j \<and> j < length idxs1 \<longrightarrow> piv \<le> lower_of (slots lims2 idxs2 ! j)"
      and pv2: "lower_of (slots lims2 idxs2 ! r) = piv"
      by blast
    let ?S2 = "slots lims2 idxs2"
    have wf2: "length lims2 = 3 * length idxs2" using len2 wf1 by simp
    have n2: "length idxs2 = ?n" using len2 len1 by simp
    have l: "l < length idxs2" and r2: "r < length idxs2" using lr r n2 by simp_all
    obtain lims3 idxs3 where sw2: "swap_slots lims2 idxs2 l r = Inr (lims3, idxs3)"
      using swap_slots_Inr [OF wf2 l r2] by blast
    let ?S3 = "slots lims3 idxs3"
    have len3: "length lims3 = length lims2" "length idxs3 = length idxs2"
      using swap_slots_length [OF sw2] by simp_all
    have wf3: "length lims3 = 3 * length idxs3" using len3 wf2 by simp
    have n3: "length idxs3 = ?n" using len3 n2 by simp
    have S3: "?S3 = ?S2[l := ?S2 ! r, r := ?S2 ! l]"
      by (rule slots_swap [OF sw2 wf2])
    have ms3: "mset ?S3 = mset ?S"
      unfolding S3 using l r2 ms2 ms1 by (simp add: mset_swap)
    have lt3: "lower_of (?S3 ! j) < piv" if "j < l" for j
    proof -
      from that lr have "j \<noteq> l" "j \<noteq> r" by simp_all
      then have "?S3 ! j = ?S2 ! j" unfolding S3 by simp
      with that lt2 show ?thesis by simp
    qed
    have pv3: "lower_of (?S3 ! l) = piv"
    proof -
      have "?S3 ! l = ?S2 ! r" unfolding S3 using l r2 by (cases "l = r") simp_all
      with pv2 show ?thesis by simp
    qed
    have ge3: "piv \<le> lower_of (?S3 ! j)" if "l < j" "j < ?n" for j
    proof (cases "j = r")
      case True
      then have "?S3 ! j = ?S2 ! l" unfolding S3 using r2 by simp
      moreover have "piv \<le> lower_of (?S2 ! l)" using ge2 l len2 by simp
      ultimately show ?thesis by simp
    next
      case False
      with that have "?S3 ! j = ?S2 ! j" unfolding S3 by simp
      moreover have "piv \<le> lower_of (?S2 ! j)" using ge2 that len1 by simp
      ultimately show ?thesis by simp
    qed
    have guard: "3 * l + 3 \<le> length lims3 \<and> l + 1 \<le> length idxs3"
      using wf3 l len3 by simp
    have wfA: "length (take (3 * l) lims3) = 3 * length (take l idxs3)"
      using wf3 l len3 by simp
    have wfB: "length (drop (3 * l + 3) lims3) = 3 * length (drop (l + 1) idxs3)"
      using wf3 l len3 by simp
    have smA: "length (take l idxs3) < ?n" using l n2 by simp
    have smB: "length (drop (l + 1) idxs3) < ?n" using l n2 n3 by simp
    have SA0: "slots (take (3 * l) lims3) (take l idxs3) = take l ?S3"
      by (rule slots_take [OF wf3])
    have SB0: "slots (drop (3 * l + 3) lims3) (drop (l + 1) idxs3) = drop (l + 1) ?S3"
    proof -
      have "3 * l + 3 = 3 * (l + 1)" by simp
      then show ?thesis by (simp only: slots_drop [OF wf3])
    qed
    from less.hyps [OF smA wfA, of "k + 1"] obtain k1 limsA idxsA where
      recA: "sort_slices rand (k + 1) (take (3 * l) lims3) (take l idxs3) = Inr (k1, limsA, idxsA)"
      and lenA: "length limsA = length (take (3 * l) lims3)" "length idxsA = length (take l idxs3)"
      and msA: "mset (slots limsA idxsA) = mset (take l ?S3)"
      and soA: "sorted (map lower_of (slots limsA idxsA))"
      unfolding SA0 by blast
    from less.hyps [OF smB wfB, of k1] obtain k2 limsB idxsB where
      recB: "sort_slices rand k1 (drop (3 * l + 3) lims3) (drop (l + 1) idxs3) = Inr (k2, limsB, idxsB)"
      and lenB: "length limsB = length (drop (3 * l + 3) lims3)" "length idxsB = length (drop (l + 1) idxs3)"
      and msB: "mset (slots limsB idxsB) = mset (drop (l + 1) ?S3)"
      and soB: "sorted (map lower_of (slots limsB idxsB))"
      unfolding SB0 by blast
    define lims' where "lims' = limsA @ take 3 (drop (3 * l) lims3) @ limsB"
    define idxs' where "idxs' = idxsA @ [idxs3 ! l] @ idxsB"
    have res: "sort_slices rand k lims idxs = Inr (k2, lims', idxs')"
      using False sw1 part sw2 guard recA recB unfolding r_def p_def
      by (subst sort_slices.simps) (simp add: Let_def lims'_def idxs'_def)
    have wfA': "length limsA = 3 * length idxsA" using lenA wfA by simp
    have l3: "l < length idxs3" using l len3 by simp
    have S': "slots lims' idxs' = slots limsA idxsA @ [?S3 ! l] @ slots limsB idxsB"
      unfolding lims'_def idxs'_def by (rule slots_rebuild [OF wfA' wf3 l3])
    have lenL: "length lims' = length lims"
      using lenA lenB wf3 l3 n3 wf by (simp add: lims'_def)
    have lenI: "length idxs' = ?n"
      using lenA lenB l3 n3 by (simp add: idxs'_def)
    have "mset (slots lims' idxs') = mset (take l ?S3) + {#?S3 ! l#} + mset (drop (l + 1) ?S3)"
      unfolding S' using msA msB by simp
    also have "\<dots> = mset (take l ?S3 @ ?S3 ! l # drop (Suc l) ?S3)" by simp
    also have "\<dots> = mset ?S3" using l3 by (simp only: id_take_nth_drop [symmetric] length_slots)
    finally have ms': "mset (slots lims' idxs') = mset ?S" using ms3 by simp
    have setA: "\<forall>x\<in>set (slots limsA idxsA). lower_of x < piv"
    proof
      fix x assume "x \<in> set (slots limsA idxsA)"
      then have "x \<in> set (take l ?S3)" using mset_eq_setD [OF msA] by simp
      then obtain j where "j < l" "x = ?S3 ! j"
        using l3 by (auto simp: in_set_conv_nth)
      with lt3 show "lower_of x < piv" by simp
    qed
    have setB: "\<forall>x\<in>set (slots limsB idxsB). piv \<le> lower_of x"
    proof
      fix x assume "x \<in> set (slots limsB idxsB)"
      then have "x \<in> set (drop (l + 1) ?S3)" using mset_eq_setD [OF msB] by simp
      then obtain j where "j < ?n - (l + 1)" "x = ?S3 ! (l + 1 + j)"
        using l3 n3 by (auto simp: in_set_conv_nth)
      with ge3 [of "l + 1 + j"] show "piv \<le> lower_of x" by simp
    qed
    define A where "A = map lower_of (slots limsA idxsA)"
    define B where "B = map lower_of (slots limsB idxsB)"
    have A: "sorted A" "\<forall>a\<in>set A. a < piv" using soA setA by (simp_all add: A_def)
    have B: "sorted B" "\<forall>b\<in>set B. piv \<le> b" using soB setB by (simp_all add: B_def)
    have "sorted (A @ piv # B)"
      unfolding sorted_append using A B by (fastforce simp: less_imp_le)
    then have "sorted (map lower_of (slots lims' idxs'))"
      unfolding S' using pv3 by (simp add: A_def B_def)
    with res lenL lenI ms' show ?thesis by simp
  qed
qed

subsection \<open>The first loop of the construction\<close>

lemma fill_loop_spec:
  assumes "length lims = 3 * length idxs" and "i + length xs \<le> length idxs"
  shows "\<exists>lims' idxs'. fill_loop get (enumerate i xs) lims idxs = Inr (lims', idxs')
           \<and> length lims' = length lims \<and> length idxs' = length idxs
           \<and> (\<forall>j<length idxs. slot_at lims' idxs' j =
                 (if i \<le> j \<and> j < i + length xs
                  then (int j, fst (get (xs ! (j - i))), snd (get (xs ! (j - i))), 0)
                  else slot_at lims idxs j))"
  using assms
proof (induction xs arbitrary: i lims idxs)
  case Nil
  then show ?case by auto
next
  case (Cons x xs)
  obtain l u where g: "get x = (l, u)" by (cases "get x")
  define lims1 where "lims1 = lims[3 * i := l, 3 * i + 1 := u, 3 * i + 2 := 0]"
  define idxs1 where "idxs1 = idxs[i := int i]"
  have i: "i < length idxs" using Cons.prems(2) by simp
  have wf1: "length lims1 = 3 * length idxs1" using Cons.prems(1) by (simp add: lims1_def idxs1_def)
  have b1: "Suc i + length xs \<le> length idxs1" using Cons.prems(2) by (simp add: idxs1_def)
  from Cons.IH [OF wf1 b1] obtain lims' idxs' where
    res: "fill_loop get (enumerate (Suc i) xs) lims1 idxs1 = Inr (lims', idxs')"
    and len: "length lims' = length lims1" "length idxs' = length idxs1"
    and sl: "\<forall>j<length idxs1. slot_at lims' idxs' j =
                 (if Suc i \<le> j \<and> j < Suc i + length xs
                  then (int j, fst (get (xs ! (j - Suc i))), snd (get (xs ! (j - Suc i))), 0)
                  else slot_at lims1 idxs1 j)"
    by blast
  have step: "fill_loop get (enumerate i (x # xs)) lims idxs = Inr (lims', idxs')"
    using i Cons.prems(1) g res by (simp add: lims1_def idxs1_def)
  have s1: "slot_at lims1 idxs1 j = (if j = i then (int i, l, u, 0) else slot_at lims idxs j)"
    if "j < length idxs" for j
    using that Cons.prems(1) by (simp add: slot_at_def lims1_def idxs1_def nth_list_update)
  have "slot_at lims' idxs' j =
          (if i \<le> j \<and> j < i + length (x # xs)
           then (int j, fst (get ((x # xs) ! (j - i))), snd (get ((x # xs) ! (j - i))), 0)
           else slot_at lims idxs j)" if j: "j < length idxs" for j
  proof (cases "Suc i \<le> j \<and> j < Suc i + length xs")
    case True
    then have "(x # xs) ! (j - i) = xs ! (j - Suc i)" by (simp add: nth_Cons')
    with True sl j show ?thesis by (simp add: idxs1_def)
  next
    case False
    have j1: "j < length idxs1" using j by (simp add: idxs1_def)
    have e: "slot_at lims' idxs' j = slot_at lims1 idxs1 j"
      using sl [rule_format, OF j1] by (simp only: if_not_P [OF False])
    show ?thesis
    proof (cases "j = i")
      case True
      then show ?thesis using e s1 [OF j] g by simp
    next
      case False
      with \<open>\<not> (Suc i \<le> j \<and> j < Suc i + length xs)\<close>
      have "\<not> (i \<le> j \<and> j < i + length (x # xs))" by auto
      then show ?thesis using e s1 [OF j] False by (simp only: if_not_P if_False)
    qed
  qed
  with step len show ?case by (simp add: lims1_def idxs1_def)
qed

lemma fill_loop_initial:
  "\<exists>lims' idxs'. fill_loop get (enumerate 0 bounds)
        (replicate (3 * length bounds) 0) (replicate (length bounds) 0) = Inr (lims', idxs')
     \<and> length lims' = 3 * length bounds \<and> length idxs' = length bounds
     \<and> slots lims' idxs' = initial_slots get bounds"
proof -
  let ?lims = "replicate (3 * length bounds) (0::real)" and ?idxs = "replicate (length bounds) (0::int)"
  have wf: "length ?lims = 3 * length ?idxs" by simp
  have b: "0 + length bounds \<le> length ?idxs" by simp
  from fill_loop_spec [OF wf b, of get] obtain lims' idxs' where
    res: "fill_loop get (enumerate 0 bounds) ?lims ?idxs = Inr (lims', idxs')"
    and len: "length lims' = length ?lims" "length idxs' = length ?idxs"
    and sl: "\<forall>j<length ?idxs. slot_at lims' idxs' j =
                 (if 0 \<le> j \<and> j < 0 + length bounds
                  then (int j, fst (get (bounds ! (j - 0))), snd (get (bounds ! (j - 0))), 0)
                  else slot_at ?lims ?idxs j)"
    by blast
  have "slots lims' idxs' = initial_slots get bounds"
    using len sl by (intro nth_equalityI) (simp_all add: initial_slots_def nth_slots)
  with res len show ?thesis by simp
qed

subsection \<open>The augmentation\<close>

text \<open>
  The scan returns the largest of \<open>0\<close> and the upper limits of the slice, and
  \<open>augment\<close> stores it at the root of every subtree without touching anything else.
\<close>

lemma max_loop_spec:
  assumes "\<forall>j\<in>set js. 3 * j + 1 < length lims"
  shows "max_loop js lims mx = Inr (Max (insert mx ((\<lambda>j. lims ! (3 * j + 1)) ` set js)))"
  using assms
proof (induction js arbitrary: mx)
  case Nil
  then show ?case by simp
next
  case (Cons j js)
  let ?U = "(\<lambda>j. lims ! (3 * j + 1)) ` set js"
  have fin: "finite ?U" by simp
  have c: "Max (insert a (insert b ?U)) = Max (insert (max a b) ?U)" for a b :: real
  proof (cases "?U = {}")
    case True
    then show ?thesis by (simp add: max.commute)
  next
    case False
    with fin show ?thesis by (simp add: max.assoc)
  qed
  show ?case
  proof (cases "lims ! (3 * j + 1) > mx")
    case True
    then have "max mx (lims ! (3 * j + 1)) = lims ! (3 * j + 1)" by simp
    with True Cons show ?thesis using c [of mx "lims ! (3 * j + 1)"] by simp
  next
    case False
    then have "max mx (lims ! (3 * j + 1)) = mx" by simp
    with False Cons show ?thesis using c [of mx "lims ! (3 * j + 1)"] by simp
  qed
qed

lemma lower_of_entry: "lower_of x = fst (snd (entry_of x))"
  and upper_of_entry: "upper_of x = snd (snd (entry_of x))"
  and orig_of_entry: "orig_of x = fst (entry_of x)"
  by (simp_all add: entry_of_def)

lemma entries_eq_maps:
  assumes "map entry_of S = map entry_of T"
  shows "map lower_of S = map lower_of T" and "map upper_of S = map upper_of T"
    and "map orig_of S = map orig_of T"
proof -
  have "map lower_of S = map (\<lambda>e. fst (snd e)) (map entry_of S)" by (simp add: lower_of_entry)
  then show "map lower_of S = map lower_of T" unfolding assms by (simp add: lower_of_entry)
  have "map upper_of S = map (\<lambda>e. snd (snd e)) (map entry_of S)" by (simp add: upper_of_entry)
  then show "map upper_of S = map upper_of T" unfolding assms by (simp add: upper_of_entry)
  have "map orig_of S = map fst (map entry_of S)" by (simp add: orig_of_entry)
  then show "map orig_of S = map orig_of T" unfolding assms by (simp add: orig_of_entry)
qed

lemma slots_store_max:
  assumes "length lims = 3 * length idxs" and "r < length idxs"
  shows "slots (lims[3 * r + 2 := mx]) idxs =
    (slots lims idxs)[r := (idxs ! r, lims ! (3 * r), lims ! (3 * r + 1), mx)]"
  using assms
  by (intro nth_equalityI) (auto simp: nth_slots slot_at_def nth_list_update)

lemma augment_spec:
  assumes "length lims = 3 * length idxs"
  shows "\<exists>lims'. augment lims idxs = Inr lims' \<and> length lims' = length lims
           \<and> map entry_of (slots lims' idxs) = map entry_of (slots lims idxs)
           \<and> augmented (slots lims' idxs)"
  using assms
proof (induction "length idxs" arbitrary: lims idxs rule: less_induct)
  case less
  note wf = less.prems
  let ?n = "length idxs" and ?S = "slots lims idxs"
  show ?case
  proof (cases "?n < 1")
    case True
    then have "augment lims idxs = Inr lims" by (subst augment.simps) simp
    moreover from True have "augmented ?S" by (subst augmented.simps) simp
    ultimately show ?thesis by simp
  next
    case False
    define mx where "mx = Max (insert 0 (upper_of ` set ?S))"
    define r where "r = augment_root ?n"
    from False have r: "r < ?n" by (cases idxs) (simp_all add: r_def augment_root_div)
    have "\<forall>j\<in>set [0..<?n]. 3 * j + 1 < length lims" using wf by simp
    then have "max_loop [0..<?n] lims 0 = Inr (Max (insert 0 ((\<lambda>j. lims ! (3 * j + 1)) ` set [0..<?n])))"
      by (rule max_loop_spec)
    moreover have "(\<lambda>j. lims ! (3 * j + 1)) ` set [0..<?n] = upper_of ` set ?S"
      by (simp add: slots_def slot_at_def upper_of_def image_image)
    ultimately have ml: "max_loop [0..<?n] lims 0 = Inr mx" by (simp add: mx_def)
    define lims1 where "lims1 = lims[3 * r + 2 := mx]"
    let ?S1 = "slots lims1 idxs"
    have wf1: "length lims1 = 3 * ?n" using wf by (simp add: lims1_def)
    have S1: "?S1 = ?S[r := (idxs ! r, lims ! (3 * r), lims ! (3 * r + 1), mx)]"
      unfolding lims1_def by (rule slots_store_max [OF wf r])
    have e1: "map entry_of ?S1 = map entry_of ?S"
      unfolding S1 using r
      by (intro nth_equalityI)
         (simp_all add: nth_list_update nth_slots slot_at_def entry_of_def orig_of_def lower_of_def upper_of_def)
    have m1: "max_of (?S1 ! r) = mx" unfolding S1 using r by (simp add: max_of_def)
    have guard: "3 * r + 2 < length lims \<and> r + 1 \<le> ?n" using wf r by simp
    have wfA: "length (take (3 * r) lims1) = 3 * length (take r idxs)" using wf1 r by simp
    have wfB: "length (drop (3 * r + 3) lims1) = 3 * length (drop (r + 1) idxs)" using wf1 r by simp
    have smA: "length (take r idxs) < ?n" using r by simp
    have smB: "length (drop (r + 1) idxs) < ?n" using r by simp
    have SA0: "slots (take (3 * r) lims1) (take r idxs) = take r ?S1"
      by (rule slots_take [OF wf1])
    have SB0: "slots (drop (3 * r + 3) lims1) (drop (r + 1) idxs) = drop (r + 1) ?S1"
    proof -
      have "3 * r + 3 = 3 * (r + 1)" by simp
      then show ?thesis by (simp only: slots_drop [OF wf1])
    qed
    from less.hyps [OF smA wfA] obtain limsA where
      recA: "augment (take (3 * r) lims1) (take r idxs) = Inr limsA"
      and lenA: "length limsA = length (take (3 * r) lims1)"
      and enA: "map entry_of (slots limsA (take r idxs)) = map entry_of (take r ?S1)"
      and auA: "augmented (slots limsA (take r idxs))"
      unfolding SA0 by blast
    from less.hyps [OF smB wfB] obtain limsB where
      recB: "augment (drop (3 * r + 3) lims1) (drop (r + 1) idxs) = Inr limsB"
      and lenB: "length limsB = length (drop (3 * r + 3) lims1)"
      and enB: "map entry_of (slots limsB (drop (r + 1) idxs)) = map entry_of (drop (r + 1) ?S1)"
      and auB: "augmented (slots limsB (drop (r + 1) idxs))"
      unfolding SB0 by blast
    define lims' where "lims' = limsA @ take 3 (drop (3 * r) lims1) @ limsB"
    let ?SA = "slots limsA (take r idxs)" and ?SB = "slots limsB (drop (r + 1) idxs)"
    let ?S' = "slots lims' idxs"
    have res: "augment lims idxs = Inr lims'"
      using False ml guard recA recB
      by (subst augment.simps) (simp add: Let_def r_def lims'_def lims1_def)
    have len': "length lims' = length lims"
      using lenA lenB wf1 wf r by (simp add: lims'_def)
    have wfA': "length limsA = 3 * length (take r idxs)" using lenA wfA by simp
    have "idxs = take r idxs @ [idxs ! r] @ drop (r + 1) idxs"
      using r by (simp add: id_take_nth_drop [symmetric])
    then have "?S' = slots lims' (take r idxs @ [idxs ! r] @ drop (r + 1) idxs)" by simp
    also have "\<dots> = ?SA @ [?S1 ! r] @ ?SB"
      unfolding lims'_def by (rule slots_rebuild [OF wfA' wf1 r])
    finally have S': "?S' = ?SA @ [?S1 ! r] @ ?SB" .
    have lSA: "length ?SA = r" using r by simp
    have "map entry_of ?S' = map entry_of (take r ?S1) @ [entry_of (?S1 ! r)] @ map entry_of (drop (r + 1) ?S1)"
      unfolding S' using enA enB by simp
    also have "\<dots> = map entry_of (take r ?S1 @ ?S1 ! r # drop (Suc r) ?S1)" by simp
    also have "\<dots> = map entry_of ?S1" using r by (simp only: id_take_nth_drop [symmetric] length_slots)
    finally have e': "map entry_of ?S' = map entry_of ?S" using e1 by simp
    have half: "length ?S' div 2 = r" by (simp add: r_def augment_root_div)
    define SA where "SA = ?SA"
    define SB where "SB = ?SB"
    define M where "M = ?S1 ! r"
    have lSA': "length SA = r" using lSA by (simp only: SA_def)
    have S'': "?S' = SA @ [M] @ SB" using S' by (simp only: SA_def SB_def M_def)
    have mid: "?S' ! (length ?S' div 2) = ?S1 ! r"
      unfolding half unfolding S'' using lSA' by (simp add: nth_append M_def)
    have tk: "take (length ?S' div 2) ?S' = ?SA"
      unfolding half unfolding S'' using lSA' by (simp add: SA_def)
    have dr: "drop (length ?S' div 2 + 1) ?S' = ?SB"
      unfolding half unfolding S'' using lSA' by (simp add: SB_def)
    have "upper_of ` set ?S' = set (map upper_of ?S')" by simp
    also have "\<dots> = set (map upper_of ?S)" using entries_eq_maps(2) [OF e'] by simp
    finally have up: "upper_of ` set ?S' = upper_of ` set ?S" by simp
    have ne: "?S' \<noteq> []" using r by (auto simp: slots_def)
    have "augmented ?S'"
      by (subst augmented.simps) (simp only: ne if_False mid tk dr m1 up mx_def auA auB simp_thms)
    with res len' e' show ?thesis by simp
  qed
qed

section \<open>Lemmas on the query\<close>

subsection \<open>The loop is the recursive descent\<close>

text \<open>
  On a well-formed index, popping an in-bounds range \<open>(l, r)\<close> and running the loop
  until the stack is back to what was below it appends to \<open>result\<close> what \<open>walk\<close>
  returns on the slots \<open>l..r\<close>.
\<close>

lemma centerIdx_div: "centerIdx l r = (l + r + 1) div 2"
proof -
  have "centerIdx l r = - (- (l + r) div 2)"
    unfolding centerIdx_def using ceiling_divide_eq_div [of "l + r" 2] by simp
  also have "\<dots> = (l + r + 1) div 2" by presburger
  finally show ?thesis .
qed

lemma centerIdx_range:
  assumes "l \<le> r"
  shows "l \<le> centerIdx l r" and "centerIdx l r \<le> r"
    and "centerIdx l r = l + (r + 1 - l) div 2"
  using assms unfolding centerIdx_div by presburger+

lemma slice_at_limits:
  assumes "length lims = 3 * length idxs" and "0 \<le> c" and "c < int (length idxs)"
  shows "slice_at lims (3 * c) = Inr (lower_of (slots lims idxs ! nat c))"
    and "slice_at lims (3 * c + 1) = Inr (upper_of (slots lims idxs ! nat c))"
    and "slice_at lims (3 * c + 2) = Inr (max_of (slots lims idxs ! nat c))"
    and "slice_at idxs c = Inr (orig_of (slots lims idxs ! nat c))"
proof -
  have n: "nat c < length idxs" using assms(2,3) by simp
  have e: "nat (3 * c) = 3 * nat c" "nat (3 * c + 1) = 3 * nat c + 1" "nat (3 * c + 2) = 3 * nat c + 2"
    using assms(2) by (simp_all add: nat_add_distrib nat_mult_distrib)
  have b: "3 * c + 2 < int (length lims)" using assms by simp
  show "slice_at lims (3 * c) = Inr (lower_of (slots lims idxs ! nat c))"
    using assms(2) b n by (simp add: slice_at_def e nth_slots slot_at_def lower_of_def)
  show "slice_at lims (3 * c + 1) = Inr (upper_of (slots lims idxs ! nat c))"
    using assms(2) b n by (simp add: slice_at_def e nth_slots slot_at_def upper_of_def)
  show "slice_at lims (3 * c + 2) = Inr (max_of (slots lims idxs ! nat c))"
    using assms(2) b n by (simp add: slice_at_def e nth_slots slot_at_def max_of_def)
  show "slice_at idxs c = Inr (orig_of (slots lims idxs ! nat c))"
    using assms(2,3) n by (simp add: slice_at_def nth_slots slot_at_def orig_of_def)
qed

lemma pop_snoc: "pop (xs @ [x]) = Inr (x, xs)"
  by (simp add: pop_def)

lemma pop_snoc2: "pop (xs @ [x, y]) = Inr (y, xs @ [x])"
  by (simp add: pop_def butlast_append)

lemma Including_step_empty:
  "Including_step t val (stk @ [r + 1, r], res) = Inr (stk, res)"
  by (simp add: Including_step_def pop_snoc pop_snoc2)

lemma Including_step_range:
  assumes wf: "length (limits t) = 3 * length (indexes t)"
    and l: "0 \<le> l" and lr: "l \<le> r" and r: "r < int (length (indexes t))"
  defines "x \<equiv> slots (limits t) (indexes t) ! nat (centerIdx l r)"
  shows "Including_step t val (stk @ [l, r], res) =
    Inr ((stk @ (if val \<le> max_of x then [l, centerIdx l r - 1] else []))
             @ (if lower_of x \<le> val then [centerIdx l r + 1, r] else []),
         res @ (if lower_of x \<le> val \<and> val \<le> upper_of x then [orig_of x] else []))"
proof -
  let ?c = "centerIdx l r"
  have c: "0 \<le> ?c" "?c < int (length (indexes t))"
    using centerIdx_range(1,2) [OF lr] l r by simp_all
  note ix = slice_at_limits [OF wf c, folded x_def]
  have st: "stk @ [l, r] = (stk @ [l]) @ [r]" by simp
  have ne: "l \<noteq> r + 1" using lr by simp
  show ?thesis
    unfolding Including_step_def
    by (simp only: prod.case pop_snoc pop_snoc2 sum.case ne if_False Let_def ix) simp
qed

lemma Including_loop_range:
  assumes wf: "length (limits t) = 3 * length (indexes t)"
    and "0 \<le> l" and "l \<le> r + 1" and "r < int (length (indexes t))"
  shows "Including_loop t val (stk @ [l, r], res) =
    Including_loop t val
      (stk, res @ walk val (take (nat (r + 1 - l)) (drop (nat l) (slots (limits t) (indexes t)))))"
  using assms(2-)
proof (induction "nat (r + 1 - l)" arbitrary: l r stk res rule: less_induct)
  case less
  let ?S = "slots (limits t) (indexes t)"
  let ?sl = "\<lambda>l r. take (nat (r + 1 - l)) (drop (nat l) ?S)"
  show ?case
  proof (cases "l = r + 1")
    case True
    have "Including_loop t val (stk @ [l, r], res) = Including_loop t val (stk, res)"
      unfolding True by (subst Including_loop.simps) (simp add: Including_step_empty)
    moreover have "walk val (?sl l r) = []"
      unfolding True by (subst walk.simps) simp
    ultimately show ?thesis by simp
  next
    case False
    with less.prems have lr: "l \<le> r" by simp
    define c where "c = centerIdx l r"
    define x where "x = ?S ! nat c"
    have cr: "l \<le> c" "c \<le> r" "c = l + (r + 1 - l) div 2"
      unfolding c_def by (rule centerIdx_range [OF lr])+
    define m where "m = nat (r + 1 - l)"
    have m: "0 < m" "nat l + m \<le> length ?S" using lr less.prems by (simp_all add: m_def)
    have len: "length (?sl l r) = m" using m by (simp add: m_def)
    have half: "nat c = nat l + m div 2"
      using cr less.prems(1) lr by (simp add: m_def nat_add_distrib nat_div_distrib)
    have mid: "?sl l r ! (m div 2) = x"
      using m unfolding x_def half by (simp add: m_def [symmetric])
    have c0: "0 \<le> c" using cr less.prems(1) by simp
    have e1: "?sl l r = take m (drop (nat l) ?S)" by (simp only: m_def)
    have e2: "?sl l (c - 1) = take (m div 2) (drop (nat l) ?S)"
    proof -
      have "nat (c - 1 + 1 - l) = m div 2" using half cr less.prems(1) by simp
      then show ?thesis by (simp only:)
    qed
    have e3: "?sl (c + 1) r = take (m - (m div 2 + 1)) (drop (nat l + (m div 2 + 1)) ?S)"
    proof -
      have "nat (r + 1 - (c + 1)) = nat (r + 1 - l) - nat (c + 1 - l)"
        using cr lr by simp
      moreover have "nat (c + 1 - l) = m div 2 + 1" using half cr less.prems(1) by simp
      ultimately have a: "nat (r + 1 - (c + 1)) = m - (m div 2 + 1)" by (simp only: m_def)
      have "nat (c + 1) = Suc (nat c)" using c0 by simp
      then have b: "nat (c + 1) = nat l + (m div 2 + 1)" unfolding half by simp
      show ?thesis by (simp only: a b)
    qed
    have left: "take (m div 2) (?sl l r) = ?sl l (c - 1)"
      unfolding e1 e2 by (simp add: min_def)
    have right: "drop (m div 2 + 1) (?sl l r) = ?sl (c + 1) r"
      unfolding e1 e3 by (simp add: drop_take add.commute)
    have ne: "?sl l r \<noteq> []" using len m by auto
    have w: "walk val (?sl l r) =
        (if lower_of x \<le> val \<and> val \<le> upper_of x then [orig_of x] else []) @
        (if lower_of x \<le> val then walk val (?sl (c + 1) r) else []) @
        (if val \<le> max_of x then walk val (?sl l (c - 1)) else [])"
      by (subst walk.simps) (simp only: ne if_False len mid left right)
    define stk1 where "stk1 = stk @ (if val \<le> max_of x then [l, c - 1] else [])"
    define res1 where "res1 = res @ (if lower_of x \<le> val \<and> val \<le> upper_of x then [orig_of x] else [])"
    have step: "Including_step t val (stk @ [l, r], res) =
        Inr (stk1 @ (if lower_of x \<le> val then [c + 1, r] else []), res1)"
      using Including_step_range [OF wf less.prems(1) lr less.prems(3), of val stk res]
      by (simp only: c_def x_def stk1_def res1_def)
    have unf: "Including_loop t val (stk @ [l, r], res) =
        Including_loop t val (stk1 @ (if lower_of x \<le> val then [c + 1, r] else []), res1)"
      by (subst Including_loop.simps) (simp add: step)
    have R: "Including_loop t val (stk1 @ (if lower_of x \<le> val then [c + 1, r] else []), res1) =
        Including_loop t val (stk1, res1 @ (if lower_of x \<le> val then walk val (?sl (c + 1) r) else []))"
    proof (cases "lower_of x \<le> val")
      case True
      have "nat (r + 1 - (c + 1)) < nat (r + 1 - l)" using cr lr by simp
      from less.hyps [where l = "c + 1" and r = r and stk = stk1 and res = res1, OF this]
        cr less.prems True show ?thesis by simp
    next
      case False
      then show ?thesis by simp
    qed
    define res2 where "res2 = res1 @ (if lower_of x \<le> val then walk val (?sl (c + 1) r) else [])"
    have L: "Including_loop t val (stk1, res2) =
        Including_loop t val (stk, res2 @ (if val \<le> max_of x then walk val (?sl l (c - 1)) else []))"
    proof (cases "val \<le> max_of x")
      case True
      have "nat (c - 1 + 1 - l) < nat (r + 1 - l)" using cr lr by simp
      from less.hyps [where l = l and r = "c - 1" and stk = stk and res = res2, OF this]
        cr less.prems True show ?thesis
        by (simp add: stk1_def)
    next
      case False
      then show ?thesis by (simp add: stk1_def)
    qed
    show ?thesis
      unfolding unf R res2_def [symmetric] L unfolding w res2_def res1_def by simp
  qed
qed

lemma Including_walk:
  assumes wf: "length (limits t) = 3 * length (indexes t)"
  shows "Including t val = Some (Inr (walk val (slots (limits t) (indexes t))))"
proof -
  let ?n = "int (length (indexes t))"
  have "Including t val = Including_loop t val ([] @ [0, ?n - 1], [])"
    by (simp add: Including_def)
  also have "\<dots> = Including_loop t val
      ([], [] @ walk val (take (nat (?n - 1 + 1 - 0)) (drop (nat 0) (slots (limits t) (indexes t)))))"
    by (rule Including_loop_range [OF wf]) simp_all
  also have "\<dots> = Including_loop t val ([], walk val (slots (limits t) (indexes t)))" by simp
  also have "\<dots> = Some (Inr (walk val (slots (limits t) (indexes t))))"
    by (subst Including_loop.simps) simp
  finally show ?thesis .
qed

subsection \<open>What the descent returns\<close>

text \<open>
  \<open>walk\<close> only returns positions of intervals that contain \<open>val\<close>; when the lower limits
  are sorted and the augmentation bounds the upper limits of every subtree, it returns all
  of them; and it returns no position twice when the positions are distinct.
\<close>

lemma hits_append: "hits val (A @ B) = hits val A \<union> hits val B"
  by (auto simp: hits_def)

lemma hits_single:
  "hits val [x] = (if lower_of x \<le> val \<and> val \<le> upper_of x then {orig_of x} else {})"
  by (auto simp: hits_def)

lemma hits_Nil [simp]: "hits val [] = {}"
  by (simp add: hits_def)

lemma split_at_root:
  assumes "S \<noteq> []"
  shows "S = take (length S div 2) S @ [S ! (length S div 2)] @ drop (length S div 2 + 1) S"
proof -
  from assms have "length S div 2 < length S" by (cases S) simp_all
  then show ?thesis by (simp add: id_take_nth_drop [symmetric])
qed

lemma walk_sound: "set (walk val S) \<subseteq> hits val S"
proof (induction "length S" arbitrary: S rule: less_induct)
  case less
  show ?case
  proof (cases "S = []")
    case True
    then show ?thesis by (subst walk.simps) simp
  next
    case False
    let ?c = "length S div 2"
    define A where "A = take ?c S"
    define B where "B = drop (?c + 1) S"
    define x where "x = S ! ?c"
    from False have c: "?c < length S" by (cases S) simp_all
    have S: "S = A @ [x] @ B"
      unfolding A_def B_def x_def by (rule split_at_root [OF False])
    have "length A < length S" "length B < length S" using c by (simp_all add: A_def B_def)
    then have IH: "set (walk val A) \<subseteq> hits val A" "set (walk val B) \<subseteq> hits val B"
      using less.hyps by blast+
    have h: "hits val S = hits val A \<union> hits val [x] \<union> hits val B"
      by (subst S) (simp only: hits_append Un_assoc)
    have w: "walk val S =
        (if lower_of x \<le> val \<and> val \<le> upper_of x then [orig_of x] else []) @
        (if lower_of x \<le> val then walk val B else []) @
        (if val \<le> max_of x then walk val A else [])"
      by (subst walk.simps) (simp only: False if_False A_def B_def x_def)
    show ?thesis unfolding w h hits_single using IH by auto
  qed
qed

lemma walk_complete:
  assumes "sorted (map lower_of S)" and "augmented S"
  shows "hits val S \<subseteq> set (walk val S)"
  using assms
proof (induction "length S" arbitrary: S rule: less_induct)
  case less
  show ?case
  proof (cases "S = []")
    case True
    then show ?thesis by simp
  next
    case False
    let ?c = "length S div 2"
    define A where "A = take ?c S"
    define B where "B = drop (?c + 1) S"
    define x where "x = S ! ?c"
    from False have c: "?c < length S" by (cases S) simp_all
    have S: "S = A @ [x] @ B"
      unfolding A_def B_def x_def by (rule split_at_root [OF False])
    have au: "max_of x = Max (insert 0 (upper_of ` set S))" "augmented A" "augmented B"
      using less.prems(2) False unfolding A_def B_def x_def
      by (subst (asm) augmented.simps, simp)+
    have so: "sorted (map lower_of A)" "sorted (map lower_of B)"
      "\<forall>y\<in>set B. lower_of x \<le> lower_of y"
      using less.prems(1) by (subst (asm) S, simp add: sorted_append)+
    have "length A < length S" "length B < length S" using c by (simp_all add: A_def B_def)
    then have IH: "hits val A \<subseteq> set (walk val A)" "hits val B \<subseteq> set (walk val B)"
      using less.hyps so au by blast+
    have h: "hits val S = hits val A \<union> hits val [x] \<union> hits val B"
      by (subst S) (simp only: hits_append Un_assoc)
    have w: "walk val S =
        (if lower_of x \<le> val \<and> val \<le> upper_of x then [orig_of x] else []) @
        (if lower_of x \<le> val then walk val B else []) @
        (if val \<le> max_of x then walk val A else [])"
      by (subst walk.simps) (simp only: False if_False A_def B_def x_def)
    have right: "hits val B = {}" if "\<not> lower_of x \<le> val"
      using that so(3) by (fastforce simp: hits_def)
    have "upper_of y \<le> max_of x" if "y \<in> set A" for y
    proof -
      from that have "y \<in> set S" by (subst S) simp
      then have "upper_of y \<in> insert 0 (upper_of ` set S)" by simp
      then show ?thesis unfolding au(1) by (intro Max_ge) simp_all
    qed
    then have left: "hits val A = {}" if "\<not> val \<le> max_of x"
      using that by (fastforce simp: hits_def)
    show ?thesis unfolding w h hits_single using IH left right by auto
  qed
qed

lemma walk_hits:
  assumes "sorted (map lower_of S)" and "augmented S"
  shows "set (walk val S) = hits val S"
  using walk_sound walk_complete [OF assms] by blast

lemma hits_subset: "hits val S \<subseteq> orig_of ` set S"
  by (auto simp: hits_def)

lemma walk_distinct:
  assumes "distinct (map orig_of S)"
  shows "distinct (walk val S)"
  using assms
proof (induction "length S" arbitrary: S rule: less_induct)
  case less
  show ?case
  proof (cases "S = []")
    case True
    then show ?thesis by (subst walk.simps) simp
  next
    case False
    let ?c = "length S div 2"
    define A where "A = take ?c S"
    define B where "B = drop (?c + 1) S"
    define x where "x = S ! ?c"
    from False have c: "?c < length S" by (cases S) simp_all
    have S: "S = A @ [x] @ B"
      unfolding A_def B_def x_def by (rule split_at_root [OF False])
    have d: "distinct (map orig_of A)" "distinct (map orig_of B)"
      "orig_of x \<notin> orig_of ` set A" "orig_of x \<notin> orig_of ` set B"
      "orig_of ` set A \<inter> orig_of ` set B = {}"
      using less.prems by (subst (asm) S, auto)+
    have "length A < length S" "length B < length S" using c by (simp_all add: A_def B_def)
    then have IH: "distinct (walk val A)" "distinct (walk val B)"
      using less.hyps d by blast+
    have sub: "set (walk val A) \<subseteq> orig_of ` set A" "set (walk val B) \<subseteq> orig_of ` set B"
      using walk_sound hits_subset by blast+
    have w: "walk val S =
        (if lower_of x \<le> val \<and> val \<le> upper_of x then [orig_of x] else []) @
        (if lower_of x \<le> val then walk val B else []) @
        (if val \<le> max_of x then walk val A else [])"
      by (subst walk.simps) (simp only: False if_False A_def B_def x_def)
    show ?thesis unfolding w using IH sub d(3,4,5) by auto
  qed
qed

subsection \<open>Construction followed by a query\<close>

lemma build_pipeline:
  "\<exists>lims1 idxs1 k' lims2 idxs2 lims3.
     fill_loop get (enumerate 0 bounds)
        (replicate (3 * length bounds) 0) (replicate (length bounds) 0) = Inr (lims1, idxs1)
     \<and> sort_slices rand k lims1 idxs1 = Inr (k', lims2, idxs2)
     \<and> augment lims2 idxs2 = Inr lims3
     \<and> well_built get bounds \<lparr>indexes = idxs2, limits = lims3\<rparr>"
proof -
  from fill_loop_initial [of get bounds] obtain lims1 idxs1 where
    f: "fill_loop get (enumerate 0 bounds)
        (replicate (3 * length bounds) 0) (replicate (length bounds) 0) = Inr (lims1, idxs1)"
    and len1: "length lims1 = 3 * length bounds" "length idxs1 = length bounds"
    and S1: "slots lims1 idxs1 = initial_slots get bounds"
    by blast
  have wf1: "length lims1 = 3 * length idxs1" using len1 by simp
  from sort_slices_spec [OF wf1, of rand k] obtain k' lims2 idxs2 where
    s: "sort_slices rand k lims1 idxs1 = Inr (k', lims2, idxs2)"
    and len2: "length lims2 = length lims1" "length idxs2 = length idxs1"
    and ms2: "mset (slots lims2 idxs2) = mset (slots lims1 idxs1)"
    and so2: "sorted (map lower_of (slots lims2 idxs2))"
    by blast
  have wf2: "length lims2 = 3 * length idxs2" using len2 wf1 by simp
  from augment_spec [OF wf2] obtain lims3 where
    a: "augment lims2 idxs2 = Inr lims3"
    and len3: "length lims3 = length lims2"
    and en3: "map entry_of (slots lims3 idxs2) = map entry_of (slots lims2 idxs2)"
    and au3: "augmented (slots lims3 idxs2)"
    by blast
  have "mset (map entry_of (slots lims3 idxs2)) = mset (map entry_of (slots lims2 idxs2))"
    using en3 by simp
  also have "\<dots> = mset (map entry_of (initial_slots get bounds))"
    using ms2 S1 by (simp only: mset_map)
  finally have ms3: "mset (map entry_of (slots lims3 idxs2)) = mset (map entry_of (initial_slots get bounds))" .
  have so3: "sorted (map lower_of (slots lims3 idxs2))"
    using so2 entries_eq_maps(1) [OF en3] by simp
  have "well_built get bounds \<lparr>indexes = idxs2, limits = lims3\<rparr>"
    unfolding well_built_def using len3 wf2 len2 len1 ms3 so3 au3 by simp
  with f s a show ?thesis by blast
qed

lemma NewINTree_built: "\<exists>t. NewINTree rand k bounds = Inr t \<and> well_built Limits bounds t"
proof -
  from build_pipeline [of Limits bounds rand k] obtain lims1 idxs1 k' lims2 idxs2 lims3 where
    "fill_loop Limits (enumerate 0 bounds)
        (replicate (3 * length bounds) 0) (replicate (length bounds) 0) = Inr (lims1, idxs1)"
    "sort_slices rand k lims1 idxs1 = Inr (k', lims2, idxs2)"
    "augment lims2 idxs2 = Inr lims3"
    "well_built Limits bounds \<lparr>indexes = idxs2, limits = lims3\<rparr>"
    by blast
  then show ?thesis by (simp add: NewINTree_def buildTree_def)
qed

lemma NewINTreeV_built: "\<exists>t. NewINTreeV rand k bounds = Inr t \<and> well_built LimitsV bounds t"
proof -
  from build_pipeline [of LimitsV bounds rand k] obtain lims1 idxs1 k' lims2 idxs2 lims3 where
    "fill_loop LimitsV (enumerate 0 bounds)
        (replicate (3 * length bounds) 0) (replicate (length bounds) 0) = Inr (lims1, idxs1)"
    "sort_slices rand k lims1 idxs1 = Inr (k', lims2, idxs2)"
    "augment lims2 idxs2 = Inr lims3"
    "well_built LimitsV bounds \<lparr>indexes = idxs2, limits = lims3\<rparr>"
    by blast
  then show ?thesis by (simp add: NewINTreeV_def buildTreeV_def)
qed

lemma hits_entries: "hits val S = fst ` {e \<in> set (map entry_of S). fst (snd e) \<le> val \<and> val \<le> snd (snd e)}"
  by (force simp: hits_def entry_of_def image_iff)

lemma hits_cong:
  assumes "mset (map entry_of S) = mset (map entry_of T)"
  shows "hits val S = hits val T"
  unfolding hits_entries using mset_eq_setD [OF assms] by simp

lemma hits_initial:
  "hits val (initial_slots get bounds) =
     int ` {i. i < length bounds \<and> fst (get (bounds ! i)) \<le> val \<and> val \<le> snd (get (bounds ! i))}"
  by (auto simp: hits_def initial_slots_def orig_of_def lower_of_def upper_of_def image_iff)

lemma set_linear_scan:
  "set (linear_scan bounds val) =
     int ` {i. i < length bounds \<and> fst (Limits (bounds ! i)) \<le> val \<and> val \<le> snd (Limits (bounds ! i))}"
  by (auto simp: linear_scan_def)

lemma indexes_slots: "map orig_of (slots lims idxs) = idxs"
  by (intro nth_equalityI) (simp_all add: nth_slots slot_at_def orig_of_def)

lemma well_built_indexes:
  assumes "well_built get bounds t"
  shows "mset (indexes t) = mset (map int [0..<length bounds])"
proof -
  let ?S = "slots (limits t) (indexes t)" and ?I = "initial_slots get bounds"
  from assms have ms: "mset (map entry_of ?S) = mset (map entry_of ?I)"
    by (simp add: well_built_def)
  have fe: "fst \<circ> entry_of = orig_of" by (rule ext) (simp add: entry_of_def)
  have e1: "map fst (map entry_of ?S) = indexes t"
    by (simp add: fe indexes_slots)
  have e2: "map fst (map entry_of ?I) = map int [0..<length bounds]"
    by (simp add: initial_slots_def entry_of_def orig_of_def comp_def)
  have "mset (map fst (map entry_of ?S)) = image_mset fst (mset (map entry_of ?S))"
    by (simp only: mset_map)
  also have "\<dots> = image_mset fst (mset (map entry_of ?I))" by (simp only: ms)
  also have "\<dots> = mset (map fst (map entry_of ?I))" by (simp only: mset_map)
  finally show ?thesis unfolding e1 e2 .
qed

lemma well_built_query:
  assumes "well_built get bounds t"
  shows "\<exists>res. Including t val = Some (Inr res)
           \<and> set res = int ` {i. i < length bounds \<and> fst (get (bounds ! i)) \<le> val
                                   \<and> val \<le> snd (get (bounds ! i))}
           \<and> distinct res"
proof -
  let ?S = "slots (limits t) (indexes t)"
  from assms have wf: "length (limits t) = 3 * length (indexes t)"
    and ms: "mset (map entry_of ?S) = mset (map entry_of (initial_slots get bounds))"
    and so: "sorted (map lower_of ?S)" and au: "augmented ?S"
    by (simp_all add: well_built_def)
  have "distinct (map int [0..<length bounds])" by (simp add: distinct_map)
  then have "distinct (indexes t)"
    using well_built_indexes [OF assms] by (metis mset_eq_imp_distinct_iff)
  then have d: "distinct (walk val ?S)"
    by (intro walk_distinct) (simp add: indexes_slots)
  have "set (walk val ?S) = hits val (initial_slots get bounds)"
    using walk_hits [OF so au] hits_cong [OF ms] by simp
  with Including_walk [OF wf] d show ?thesis by (simp add: hits_initial)
qed

lemma lower_limits_slots: "lower_limits t = map lower_of (slots (limits t) (indexes t))"
  by (simp add: lower_limits_def slots_def slot_at_def lower_of_def)

subsection \<open>The stack holds in-bounds ranges\<close>

lemma ranges_ok_snoc2:
  "ranges_ok n (xs @ [l, r]) \<longleftrightarrow> ranges_ok n xs \<and> 0 \<le> l \<and> r \<le> int n - 1 \<and> l \<le> r + 1"
  by (induction n xs rule: ranges_ok.induct) auto

lemma ranges_ok_snoc4:
  "ranges_ok n (xs @ [l, r, l', r']) \<longleftrightarrow>
     ranges_ok n xs \<and> 0 \<le> l \<and> r \<le> int n - 1 \<and> l \<le> r + 1
     \<and> 0 \<le> l' \<and> r' \<le> int n - 1 \<and> l' \<le> r' + 1"
proof -
  have "xs @ [l, r, l', r'] = (xs @ [l, r]) @ [l', r']" by simp
  then show ?thesis by (simp only: ranges_ok_snoc2 conj_assoc)
qed

lemma ranges_ok_last2:
  "ranges_ok n stk \<Longrightarrow> stk \<noteq> [] \<Longrightarrow> \<exists>xs l r. stk = xs @ [l, r]"
proof (induction n stk rule: ranges_ok.induct)
  case (1 n)
  then show ?case by simp
next
  case (2 n x)
  then show ?case by simp
next
  case (3 n l r rest)
  show ?case
  proof (cases "rest = []")
    case True
    then have "l # r # rest = [] @ [l, r]" by simp
    then show ?thesis by blast
  next
    case False
    with 3 obtain xs l' r' where "rest = xs @ [l', r']" by auto
    then have "l # r # rest = (l # r # xs) @ [l', r']" by simp
    then show ?thesis by blast
  qed
qed

lemma Including_step_ranges_ok:
  assumes wf: "length (limits t) = 3 * length (indexes t)"
    and ok: "ranges_ok (length (indexes t)) (fst s)" and ne: "fst s \<noteq> []"
  shows "\<exists>s'. Including_step t val s = Inr s' \<and> ranges_ok (length (indexes t)) (fst s')"
proof -
  let ?n = "length (indexes t)"
  obtain stk res where s: "s = (stk, res)" by (cases s)
  from ranges_ok_last2 [OF ok ne] s obtain xs l r where stk: "stk = xs @ [l, r]" by auto
  from ok have b: "ranges_ok ?n xs" "0 \<le> l" "r \<le> int ?n - 1" "l \<le> r + 1"
    unfolding s stk by (simp_all add: ranges_ok_snoc2)
  show ?thesis
  proof (cases "l = r + 1")
    case True
    then show ?thesis unfolding s stk using b(1) by (simp add: Including_step_empty)
  next
    case False
    with b have lr: "l \<le> r" and r: "r < int ?n" by simp_all
    note c = centerIdx_range(1,2) [OF lr]
    show ?thesis
      unfolding s stk Including_step_range [OF wf b(2) lr r]
      using b c by (simp add: ranges_ok_snoc2 ranges_ok_snoc4)
  qed
qed

lemma Including_state_ranges_ok:
  assumes wf: "length (limits t) = 3 * length (indexes t)"
  shows "Including_state t val j = Some s \<Longrightarrow> ranges_ok (length (indexes t)) (fst s)"
proof (induction j arbitrary: s)
  case 0
  then show ?case by auto
next
  case (Suc j)
  from Suc.prems obtain s0 where s0: "Including_state t val j = Some s0"
    and ne: "fst s0 \<noteq> []" and st: "Including_step t val s0 = Inr s"
    by (auto split: option.splits if_splits sum.splits)
  from Including_step_ranges_ok [OF wf Suc.IH [OF s0] ne, of val] st show ?case by simp
qed

subsection \<open>The input is read through its limits only\<close>

lemma fill_loop_map:
  "fill_loop get (enumerate i xs) lims idxs = fill_loop (\<lambda>p. p) (enumerate i (map get xs)) lims idxs"
  by (induction xs arbitrary: i lims idxs) simp_all

section \<open>The scan of the source and the combination of child values\<close>

text \<open>
  \<open>augment_combined\<close> stores the largest upper limit of every subtree. \<open>augment\<close>
  stores the larger of that and \<open>0\<close>, so the two agree on slices whose upper limits
  are all non-negative.
\<close>

lemma exactly_augmented_root:
  assumes "exactly_augmented S" and "S \<noteq> []"
  shows "max_of (S ! (length S div 2)) = Max (upper_of ` set S)"
  using assms by (subst (asm) exactly_augmented.simps) simp

lemma lims_max: "i < length idxs \<Longrightarrow> lims ! (3 * i + 2) = max_of (slots lims idxs ! i)"
  by (simp add: nth_slots slot_at_def max_of_def)

lemma lims_upper: "i < length idxs \<Longrightarrow> lims ! (3 * i + 1) = upper_of (slots lims idxs ! i)"
  by (simp add: nth_slots slot_at_def upper_of_def)

lemma slots_triple:
  "slots (limsA @ [a, b, c] @ limsB) (idxsA @ [x] @ idxsB) =
     slots limsA idxsA @ [(x, a, b, c)] @ slots limsB idxsB"
  if "length limsA = 3 * length idxsA"
proof -
  have "slots ([a, b, c] @ limsB) ([x] @ idxsB) = slots [a, b, c] [x] @ slots limsB idxsB"
    by (rule slots_append) simp
  moreover have "slots [a, b, c] [x] = [(x, a, b, c)]"
    by (simp add: slots_def slot_at_def)
  ultimately show ?thesis using that by (simp only: slots_append)
qed

lemma augment_combined_spec:
  assumes "length lims = 3 * length idxs"
  shows "\<exists>lims'. augment_combined lims idxs = Inr lims' \<and> length lims' = length lims
           \<and> map entry_of (slots lims' idxs) = map entry_of (slots lims idxs)
           \<and> exactly_augmented (slots lims' idxs)"
  using assms
proof (induction "length idxs" arbitrary: lims idxs rule: less_induct)
  case less
  note wf = less.prems
  let ?n = "length idxs" and ?S = "slots lims idxs"
  show ?case
  proof (cases "?n < 1")
    case True
    then have "augment_combined lims idxs = Inr lims" by (subst augment_combined.simps) simp
    moreover from True have "exactly_augmented ?S" by (subst exactly_augmented.simps) simp
    ultimately show ?thesis by simp
  next
    case False
    define r where "r = augment_root ?n"
    from False have r: "r < ?n" by (cases idxs) (simp_all add: r_def augment_root_div)
    have guard: "3 * r + 2 < length lims \<and> r + 1 \<le> ?n" using wf r by simp
    have wfA: "length (take (3 * r) lims) = 3 * length (take r idxs)" using wf r by simp
    have wfB: "length (drop (3 * r + 3) lims) = 3 * length (drop (r + 1) idxs)" using wf r by simp
    have smA: "length (take r idxs) < ?n" using r by simp
    have smB: "length (drop (r + 1) idxs) < ?n" using r by simp
    have SA0: "slots (take (3 * r) lims) (take r idxs) = take r ?S"
      by (rule slots_take [OF wf])
    have SB0: "slots (drop (3 * r + 3) lims) (drop (r + 1) idxs) = drop (r + 1) ?S"
    proof -
      have "3 * r + 3 = 3 * (r + 1)" by simp
      then show ?thesis by (simp only: slots_drop [OF wf])
    qed
    from less.hyps [OF smA wfA] obtain limsA where
      recA: "augment_combined (take (3 * r) lims) (take r idxs) = Inr limsA"
      and lenA: "length limsA = length (take (3 * r) lims)"
      and enA: "map entry_of (slots limsA (take r idxs)) = map entry_of (take r ?S)"
      and auA: "exactly_augmented (slots limsA (take r idxs))"
      unfolding SA0 by blast
    from less.hyps [OF smB wfB] obtain limsB where
      recB: "augment_combined (drop (3 * r + 3) lims) (drop (r + 1) idxs) = Inr limsB"
      and lenB: "length limsB = length (drop (3 * r + 3) lims)"
      and enB: "map entry_of (slots limsB (drop (r + 1) idxs)) = map entry_of (drop (r + 1) ?S)"
      and auB: "exactly_augmented (slots limsB (drop (r + 1) idxs))"
      unfolding SB0 by blast
    define SA where "SA = slots limsA (take r idxs)"
    define SB where "SB = slots limsB (drop (r + 1) idxs)"
    define nr where "nr = ?n - (r + 1)"
    define u where "u = lims ! (3 * r + 1)"
    define m1 where "m1 = (if 0 < r then max u (limsA ! (3 * augment_root r + 2)) else u)"
    define m2 where "m2 = (if 0 < nr then max m1 (limsB ! (3 * augment_root nr + 2)) else m1)"
    define lims' where "lims' = limsA @ [lims ! (3 * r), u, m2] @ limsB"
    have lSA: "length SA = r" and lSB: "length SB = nr"
      using r by (simp_all add: SA_def SB_def nr_def)
    have res: "augment_combined lims idxs = Inr lims'"
      using False guard recA recB
      by (subst augment_combined.simps)
         (simp add: Let_def r_def [symmetric] lims'_def m2_def m1_def u_def nr_def)
    have len': "length lims' = length lims"
      using lenA lenB wf r by (simp add: lims'_def)
    have wfA': "length limsA = 3 * length (take r idxs)" using lenA wfA by simp
    have "idxs = take r idxs @ [idxs ! r] @ drop (r + 1) idxs"
      using r by (simp add: id_take_nth_drop [symmetric])
    then have "slots lims' idxs = slots lims' (take r idxs @ [idxs ! r] @ drop (r + 1) idxs)"
      by simp
    also have "\<dots> = SA @ [(idxs ! r, lims ! (3 * r), u, m2)] @ SB"
      unfolding lims'_def SA_def SB_def by (rule slots_triple [OF wfA'])
    finally have S': "slots lims' idxs = SA @ [(idxs ! r, lims ! (3 * r), u, m2)] @ SB" .
    have Sr: "entry_of (?S ! r) = (idxs ! r, lims ! (3 * r), u)"
      using r by (simp add: nth_slots slot_at_def entry_of_def orig_of_def lower_of_def
          upper_of_def u_def)
    have "map entry_of (slots lims' idxs) =
        map entry_of (take r ?S) @ [entry_of (?S ! r)] @ map entry_of (drop (r + 1) ?S)"
      unfolding S' using enA enB Sr
      by (simp add: SA_def SB_def entry_of_def orig_of_def lower_of_def upper_of_def)
    also have "\<dots> = map entry_of (take r ?S @ ?S ! r # drop (Suc r) ?S)" by simp
    also have "\<dots> = map entry_of ?S" using r by (simp only: id_take_nth_drop [symmetric] length_slots)
    finally have e': "map entry_of (slots lims' idxs) = map entry_of ?S" .
    have upA: "upper_of ` set SA = upper_of ` set (take r ?S)"
    proof -
      have "map upper_of SA = map upper_of (take r ?S)"
        using enA unfolding SA_def by (rule entries_eq_maps(2))
      then have "set (map upper_of SA) = set (map upper_of (take r ?S))" by simp
      then show ?thesis by simp
    qed
    have upB: "upper_of ` set SB = upper_of ` set (drop (r + 1) ?S)"
    proof -
      have "map upper_of SB = map upper_of (drop (r + 1) ?S)"
        using enB unfolding SB_def by (rule entries_eq_maps(2))
      then have "set (map upper_of SB) = set (map upper_of (drop (r + 1) ?S))" by simp
      then show ?thesis by simp
    qed
    have mA: "limsA ! (3 * augment_root r + 2) = Max (upper_of ` set SA)" if "0 < r"
    proof -
      have ne: "SA \<noteq> []" using lSA that by auto
      have "augment_root r < length (take r idxs)" using r that by (simp add: augment_root_div)
      then have "limsA ! (3 * augment_root r + 2) = max_of (SA ! augment_root r)"
        unfolding SA_def by (rule lims_max)
      also have "\<dots> = max_of (SA ! (length SA div 2))" by (simp add: lSA augment_root_div)
      also have "\<dots> = Max (upper_of ` set SA)"
        using auA ne unfolding SA_def [symmetric] by (rule exactly_augmented_root)
      finally show ?thesis .
    qed
    have mB: "limsB ! (3 * augment_root nr + 2) = Max (upper_of ` set SB)" if "0 < nr"
    proof -
      have ne: "SB \<noteq> []" using lSB that by auto
      have "augment_root nr < length (drop (r + 1) idxs)"
        using that by (simp add: augment_root_div nr_def)
      then have "limsB ! (3 * augment_root nr + 2) = max_of (SB ! augment_root nr)"
        unfolding SB_def by (rule lims_max)
      also have "\<dots> = max_of (SB ! (length SB div 2))" by (simp add: lSB augment_root_div)
      also have "\<dots> = Max (upper_of ` set SB)"
        using auB ne unfolding SB_def [symmetric] by (rule exactly_augmented_root)
      finally show ?thesis .
    qed
    have eA: "SA = [] \<longleftrightarrow> r = 0" and eB: "SB = [] \<longleftrightarrow> nr = 0"
      using lSA lSB by auto
    have m1: "m1 = Max (insert u (upper_of ` set SA))"
    proof (cases "0 < r")
      case True
      then have "SA \<noteq> []" using eA by simp
      then show ?thesis using True mA by (simp add: m1_def)
    next
      case False
      then show ?thesis using eA by (simp add: m1_def)
    qed
    have m2: "m2 = Max (insert u (upper_of ` set SA \<union> upper_of ` set SB))"
    proof (cases "0 < nr")
      case True
      then have ne: "upper_of ` set SB \<noteq> {}" using eB by simp
      have "Max (insert u (upper_of ` set SA) \<union> upper_of ` set SB) =
          max (Max (insert u (upper_of ` set SA))) (Max (upper_of ` set SB))"
        using ne by (intro Max_Un) simp_all
      then show ?thesis using True mB m1 by (simp add: m2_def)
    next
      case False
      then show ?thesis using eB m1 by (simp add: m2_def)
    qed
    have "upper_of ` set ?S = set (map upper_of ?S)" by simp
    also have "\<dots> = set (map upper_of (slots lims' idxs))"
      using entries_eq_maps(2) [OF e'] by simp
    also have "\<dots> = insert u (upper_of ` set SA \<union> upper_of ` set SB)"
      unfolding S' by (auto simp: upper_of_def)
    finally have up: "upper_of ` set (slots lims' idxs) = insert u (upper_of ` set SA \<union> upper_of ` set SB)"
      using entries_eq_maps(2) [OF e'] by (metis list.set_map)
    have half: "length (slots lims' idxs) div 2 = r" by (simp add: r_def augment_root_div)
    define M where "M = (idxs ! r, lims ! (3 * r), u, m2)"
    have S'': "slots lims' idxs = SA @ [M] @ SB" using S' by (simp only: M_def)
    have mid: "slots lims' idxs ! (length (slots lims' idxs) div 2) = M"
      unfolding half unfolding S'' using lSA by (simp add: nth_append)
    have tk: "take (length (slots lims' idxs) div 2) (slots lims' idxs) = SA"
      unfolding half unfolding S'' using lSA by simp
    have dr: "drop (length (slots lims' idxs) div 2 + 1) (slots lims' idxs) = SB"
      unfolding half unfolding S'' using lSA by simp
    have mM: "max_of M = m2" by (simp add: M_def max_of_def)
    have ne: "slots lims' idxs \<noteq> []" using r by (auto simp: slots_def)
    have "exactly_augmented (slots lims' idxs)"
      by (subst exactly_augmented.simps)
         (simp only: ne if_False mid tk dr mM m2 up auA [folded SA_def] auB [folded SB_def] simp_thms)
    with res len' e' show ?thesis by simp
  qed
qed

lemma augmented_parts:
  assumes "augmented S" and "S \<noteq> []"
  shows "max_of (S ! (length S div 2)) = Max (insert 0 (upper_of ` set S))"
    and "augmented (take (length S div 2) S)"
    and "augmented (drop (length S div 2 + 1) S)"
  using assms(1) unfolding augmented.simps [of S] using assms(2) by simp_all

lemma exactly_augmented_parts:
  assumes "exactly_augmented S" and "S \<noteq> []"
  shows "max_of (S ! (length S div 2)) = Max (upper_of ` set S)"
    and "exactly_augmented (take (length S div 2) S)"
    and "exactly_augmented (drop (length S div 2 + 1) S)"
  using assms(1) unfolding exactly_augmented.simps [of S] using assms(2) by simp_all

lemma slot_eqI:
  assumes "entry_of x = entry_of y" and "max_of x = max_of y"
  shows "x = y"
  using assms
  by (cases x, cases y) (simp add: entry_of_def orig_of_def lower_of_def upper_of_def max_of_def)

lemma augmented_unique:
  assumes "map entry_of S = map entry_of T" and "augmented S" and "exactly_augmented T"
    and "\<forall>x\<in>set S. 0 \<le> upper_of x"
  shows "S = T"
  using assms
proof (induction "length S" arbitrary: S T rule: less_induct)
  case less
  from less.prems(1) have len: "length S = length T" by (rule map_eq_imp_length_eq)
  show ?case
  proof (cases "S = []")
    case True
    with len show ?thesis by simp
  next
    case False
    with len have neT: "T \<noteq> []" by auto
    let ?c = "length S div 2"
    from False have c: "?c < length S" by (cases S) simp_all
    note auS = augmented_parts [OF less.prems(2) False]
    note auT = exactly_augmented_parts [OF less.prems(3) neT, folded len]
    have "set (map upper_of S) = set (map upper_of T)"
      using entries_eq_maps(2) [OF less.prems(1)] by simp
    then have up: "upper_of ` set S = upper_of ` set T" by simp
    have fin: "finite (upper_of ` set S)" and ne: "upper_of ` set S \<noteq> {}" using False by simp_all
    have "0 \<le> Max (upper_of ` set S)"
    proof -
      from False obtain x where x: "x \<in> set S" by (cases S) auto
      then have "0 \<le> upper_of x" using less.prems(4) by simp
      also have "upper_of x \<le> Max (upper_of ` set S)"
        using x by (intro Max_ge) simp_all
      finally show ?thesis .
    qed
    then have "Max (insert 0 (upper_of ` set S)) = Max (upper_of ` set S)"
      using fin ne by (simp add: max_def)
    then have m: "max_of (S ! ?c) = max_of (T ! ?c)" using auS(1) auT(1) up by simp
    have "entry_of (S ! ?c) = map entry_of S ! ?c" using c by simp
    also have "\<dots> = entry_of (T ! ?c)" unfolding less.prems(1) using c len by simp
    finally have mid: "S ! ?c = T ! ?c" using m by (rule slot_eqI)
    have eA: "map entry_of (take ?c S) = map entry_of (take ?c T)"
      using less.prems(1) by (simp only: take_map [symmetric])
    have eB: "map entry_of (drop (?c + 1) S) = map entry_of (drop (?c + 1) T)"
      using less.prems(1) by (simp only: drop_map [symmetric])
    have pA: "\<forall>x\<in>set (take ?c S). 0 \<le> upper_of x"
      using less.prems(4) by (blast dest: in_set_takeD)
    have pB: "\<forall>x\<in>set (drop (?c + 1) S). 0 \<le> upper_of x"
      using less.prems(4) by (blast dest: in_set_dropD)
    have "length (take ?c S) < length S" using c by simp
    then have A: "take ?c S = take ?c T"
      using eA auS(2) auT(2) pA by (rule less.hyps)
    have "length (drop (?c + 1) S) < length S" using c by simp
    then have B: "drop (?c + 1) S = drop (?c + 1) T"
      using eB auS(3) auT(3) pB by (rule less.hyps)
    have "S = take ?c S @ [S ! ?c] @ drop (?c + 1) S" by (rule split_at_root [OF False])
    also have "\<dots> = take ?c T @ [T ! ?c] @ drop (?c + 1) T" by (simp only: A B mid)
    also have "\<dots> = T" unfolding len by (rule split_at_root [OF neT, symmetric])
    finally show ?thesis .
  qed
qed

lemma slots_inject:
  assumes "slots lims idxs = slots lims' idxs"
    and "length lims = 3 * length idxs" and "length lims' = 3 * length idxs"
  shows "lims = lims'"
proof (rule nth_equalityI)
  show "length lims = length lims'" using assms(2,3) by simp
  fix j assume j: "j < length lims"
  define i where "i = j div 3"
  define k where "k = j mod 3"
  have ji: "j = 3 * i + k" by (simp add: i_def k_def)
  have i: "i < length idxs" using j assms(2) by (simp add: i_def)
  have "slots lims idxs ! i = slots lims' idxs ! i" by (simp only: assms(1))
  then have s: "slot_at lims idxs i = slot_at lims' idxs i" using i by (simp only: nth_slots)
  then have c: "lims ! (3 * i) = lims' ! (3 * i)" "lims ! (3 * i + 1) = lims' ! (3 * i + 1)"
    "lims ! (3 * i + 2) = lims' ! (3 * i + 2)"
    by (simp_all add: slot_at_def)
  have "k < 3" by (simp add: k_def)
  then consider "k = 0" | "k = 1" | "k = 2" by linarith
  then show "lims ! j = lims' ! j"
    unfolding ji using c by cases simp_all
qed

lemma augment_agrees_on_nonnegative:
  assumes wf: "length lims = 3 * length idxs"
    and nn: "\<forall>i<length idxs. 0 \<le> lims ! (3 * i + 1)"
  shows "augment lims idxs = augment_combined lims idxs"
proof -
  from augment_spec [OF wf] obtain lims1 where
    a1: "augment lims idxs = Inr lims1" and l1: "length lims1 = length lims"
    and e1: "map entry_of (slots lims1 idxs) = map entry_of (slots lims idxs)"
    and au1: "augmented (slots lims1 idxs)" by blast
  from augment_combined_spec [OF wf] obtain lims2 where
    a2: "augment_combined lims idxs = Inr lims2" and l2: "length lims2 = length lims"
    and e2: "map entry_of (slots lims2 idxs) = map entry_of (slots lims idxs)"
    and au2: "exactly_augmented (slots lims2 idxs)" by blast
  have u1: "map upper_of (slots lims1 idxs) = map upper_of (slots lims idxs)"
    using e1 by (rule entries_eq_maps(2))
  have u0: "map upper_of (slots lims idxs) = map (\<lambda>i. lims ! (3 * i + 1)) [0..<length idxs]"
    by (simp add: slots_def slot_at_def upper_of_def)
  have p: "\<forall>x\<in>set (slots lims1 idxs). 0 \<le> upper_of x"
  proof
    fix x assume "x \<in> set (slots lims1 idxs)"
    then have "upper_of x \<in> set (map upper_of (slots lims1 idxs))" by simp
    then have "upper_of x \<in> set (map (\<lambda>i. lims ! (3 * i + 1)) [0..<length idxs])"
      unfolding u1 u0 .
    then obtain i where "i < length idxs" "upper_of x = lims ! (3 * i + 1)" by auto
    with nn show "0 \<le> upper_of x" by simp
  qed
  have "map entry_of (slots lims1 idxs) = map entry_of (slots lims2 idxs)"
    using e1 e2 by simp
  then have "slots lims1 idxs = slots lims2 idxs"
    using au1 au2 p by (rule augmented_unique)
  moreover have "length lims1 = 3 * length idxs" "length lims2 = 3 * length idxs"
    using l1 l2 wf by simp_all
  ultimately have "lims1 = lims2" by (rule slots_inject)
  with a1 a2 show ?thesis by simp
qed

section \<open>The claims\<close>

text \<open>
  Claim C1. For every collection of intervals, every sequence of pivot choices and every
  query point, construction succeeds, \<open>Including\<close> returns, and the positions it
  returns are, as a set, those that a linear scan of the collection finds: the positions
  \<open>i\<close> with \<open>lower(i) \<le> val \<le> upper(i)\<close>. For the empty collection the result is
  empty.
\<close>

theorem Including_equals_linear_scan:
  "\<exists>t res. NewINTree rand k bounds = Inr t \<and> Including t val = Some (Inr res)
     \<and> set res = set (linear_scan bounds val) \<and> (bounds = [] \<longrightarrow> res = [])"
proof -
  from NewINTree_built [of rand k bounds] obtain t where
    t: "NewINTree rand k bounds = Inr t" and wb: "well_built Limits bounds t" by blast
  from well_built_query [OF wb, of val] obtain res where
    q: "Including t val = Some (Inr res)"
    and r: "set res = int ` {i. i < length bounds \<and> fst (Limits (bounds ! i)) \<le> val
                                   \<and> val \<le> snd (Limits (bounds ! i))}"
    by blast
  from r have "set res = set (linear_scan bounds val)" by (simp only: set_linear_scan)
  moreover from r have "bounds = [] \<longrightarrow> res = []" by auto
  ultimately show ?thesis using t q by blast
qed

theorem Including_equals_linear_scan_witness:
  "(\<exists>t res. NewINTree (\<lambda>k. k) 0 [] = Inr t \<and> Including t 6 = Some (Inr res) \<and> res = [])
   \<and> NewINTree (\<lambda>k. k) 0 [Bounds 4 6, Bounds 6 9, Bounds 9 11]
       = Inr \<lparr>indexes = [0, 1, 2], limits = [4, 6, 6, 6, 9, 11, 9, 11, 11]\<rparr>
   \<and> Including \<lparr>indexes = [0, 1, 2], limits = [4, 6, 6, 6, 9, 11, 9, 11, 11]\<rparr> 6 = Some (Inr [1, 0])
   \<and> linear_scan [Bounds 4 6, Bounds 6 9, Bounds 9 11] 6 = [0, 1]
   \<and> set [1, 0] = set (linear_scan [Bounds 4 6, Bounds 6 9, Bounds 9 11] 6)"
proof -
  let ?T = "\<lparr>indexes = [0, 1, 2], limits = [4, 6, 6, 6, 9, 11, 9, 11, 11]\<rparr>"
  have e: "NewINTree (\<lambda>k. k) 0 [Bounds 4 6, Bounds 6 9, Bounds 9 11] = Inr ?T"
    by code_simp
  have q: "Including ?T 6 = Some (Inr [1, 0])"
    by code_simp
  have s: "linear_scan [Bounds 4 6, Bounds 6 9, Bounds 9 11] 6 = [0, 1]"
    by code_simp
  from Including_equals_linear_scan [of "\<lambda>k. k" 0 "[]" 6]
  obtain t0 res0 where "NewINTree (\<lambda>k. k) 0 [] = Inr t0" "Including t0 6 = Some (Inr res0)"
    "[] = ([]::Bounds list) \<longrightarrow> res0 = []" by blast
  then have a: "\<exists>t res. NewINTree (\<lambda>k. k) 0 [] = Inr t \<and> Including t 6 = Some (Inr res) \<and> res = []"
    by blast
  from Including_equals_linear_scan [of "\<lambda>k. k" 0 "[Bounds 4 6, Bounds 6 9, Bounds 9 11]" 6]
  obtain t res where t: "NewINTree (\<lambda>k. k) 0 [Bounds 4 6, Bounds 6 9, Bounds 9 11] = Inr t"
    and r: "Including t 6 = Some (Inr res)"
    and sr: "set res = set (linear_scan [Bounds 4 6, Bounds 6 9, Bounds 9 11] 6)"
    by blast
  from t have "t = ?T" unfolding e by simp
  with r have "Including ?T 6 = Some (Inr res)" by simp
  then have "res = [1, 0]" unfolding q by simp
  with sr have b: "set [1, 0] = set (linear_scan [Bounds 4 6, Bounds 6 9, Bounds 9 11] 6)"
    by (simp only:)
  from a e q s b show ?thesis by (intro conjI)
qed

text \<open>
  Claim C2 says that after construction \<open>subtreeMax[i]\<close> is the largest upper limit in
  the subtree of slot \<open>i\<close>, also when every upper limit is negative. The scan of
  \<open>augment\<close> starts from \<open>max := 0.0\<close>, so it never stores a negative value: for the
  single interval \<open>[-2, -1]\<close> the subtree of slot 0 is slot 0 alone, its largest upper
  limit is \<open>-1\<close>, and the value stored is \<open>0\<close>.
\<close>

theorem augment_stores_zero_for_negative_uppers:
  "NewINTree rand k [Bounds (- 2) (- 1)] = Inr \<lparr>indexes = [0], limits = [- 2, - 1, 0]\<rparr>
   \<and> upper_limits \<lparr>indexes = [0], limits = [- 2, - 1, 0]\<rparr> = [- 1]
   \<and> subtree_maxes \<lparr>indexes = [0], limits = [- 2, - 1, 0]\<rparr> = [0]"
  by (simp add: NewINTree_def buildTree_def sort_slices.simps augment.simps augment_root_div
      numeral_3_eq_3 upper_limits_def subtree_maxes_def)

text \<open>
  Claim C3 says that the scan of the source and the combination of the children's values
  give the same \<open>subtreeMax\<close> on every sorted array. On the single interval \<open>[-2, -1]\<close>
  the source stores \<open>0\<close> and the combination stores \<open>-1\<close>: the same initial
  \<open>max := 0.0\<close> of \<open>augment\<close> as in claim C2.
\<close>

theorem augment_differs_from_augment_combined:
  "augment [- 2, - 1, 0] [0] = Inr [- 2, - 1, 0]
   \<and> augment_combined [- 2, - 1, 0] [0] = Inr [- 2, - 1, - 1]"
  by (simp add: augment.simps augment_combined.simps augment_root_div Let_def)



text \<open>
  Claim C5. After construction from any collection, whatever the pivot choices, the
  lower limits are non-decreasing over the slots \<open>0..n-1\<close>.
\<close>

theorem lower_limits_sorted:
  "\<exists>t. NewINTree rand k bounds = Inr t \<and> length (indexes t) = length bounds
     \<and> sorted (lower_limits t)"
proof -
  from NewINTree_built [of rand k bounds] obtain t where
    "NewINTree rand k bounds = Inr t" "well_built Limits bounds t" by blast
  then show ?thesis by (auto simp: well_built_def lower_limits_slots)
qed

theorem lower_limits_sorted_witness:
  "NewINTree (\<lambda>k. 2 * k + 1) 0 [Bounds 9 11, Bounds 4 6, Bounds 6 9]
     = Inr \<lparr>indexes = [1, 2, 0], limits = [4, 6, 6, 6, 9, 11, 9, 11, 11]\<rparr>
   \<and> lower_limits \<lparr>indexes = [1, 2, 0], limits = [4, 6, 6, 6, 9, 11, 9, 11, 11]\<rparr> = [4, 6, 9]
   \<and> sorted (lower_limits \<lparr>indexes = [1, 2, 0], limits = [4, 6, 6, 6, 9, 11, 9, 11, 11]\<rparr>)"
proof -
  let ?T = "\<lparr>indexes = [1, 2, 0], limits = [4, 6, 6, 6, 9, 11, 9, 11, 11]\<rparr>"
  have e: "NewINTree (\<lambda>k. 2 * k + 1) 0 [Bounds 9 11, Bounds 4 6, Bounds 6 9] = Inr ?T"
    by code_simp
  have l: "lower_limits ?T = [4, 6, 9]"
    by code_simp
  from lower_limits_sorted [of "\<lambda>k. 2 * k + 1" 0 "[Bounds 9 11, Bounds 4 6, Bounds 6 9]"]
  obtain t where t: "NewINTree (\<lambda>k. 2 * k + 1) 0 [Bounds 9 11, Bounds 4 6, Bounds 6 9] = Inr t"
    and so: "sorted (lower_limits t)" by blast
  from t have "t = ?T" unfolding e by simp
  with so have "sorted (lower_limits ?T)" by simp
  with e l show ?thesis by (intro conjI)
qed

text \<open>
  Claim C6. In every built index \<open>indexes\<close> is a bijection from the slots \<open>[0, n)\<close> to
  the positions \<open>[0, n)\<close>; every position that \<open>Including\<close> returns lies in
  \<open>[0, n)\<close>, and the interval at that position of the caller's collection contains the
  query point.
\<close>

theorem indexes_bijection_and_round_trip:
  "\<exists>t. NewINTree rand k bounds = Inr t \<and> length (indexes t) = length bounds
     \<and> bij_betw (\<lambda>i. indexes t ! i) {0..<length bounds} {0..<int (length bounds)}
     \<and> (\<exists>res. Including t val = Some (Inr res)
           \<and> (\<forall>p\<in>set res. 0 \<le> p \<and> p < int (length bounds)
                 \<and> fst (Limits (bounds ! nat p)) \<le> val \<and> val \<le> snd (Limits (bounds ! nat p))))"
proof -
  from NewINTree_built [of rand k bounds] obtain t where
    t: "NewINTree rand k bounds = Inr t" and wb: "well_built Limits bounds t" by blast
  from wb have len: "length (indexes t) = length bounds" by (simp add: well_built_def)
  note ms = well_built_indexes [OF wb]
  have "distinct (map int [0..<length bounds])" by (simp add: distinct_map)
  then have d: "distinct (indexes t)" using ms by (metis mset_eq_imp_distinct_iff)
  have "set (indexes t) = set (map int [0..<length bounds])" using ms by (rule mset_eq_setD)
  then have st: "set (indexes t) = {0..<int (length bounds)}"
    by (simp add: image_int_atLeastLessThan)
  have bij: "bij_betw (\<lambda>i. indexes t ! i) {0..<length bounds} {0..<int (length bounds)}"
    using d len st by (intro bij_betw_nth) (simp_all add: atLeast0LessThan)
  from well_built_query [OF wb, of val] obtain res where
    q: "Including t val = Some (Inr res)"
    and r: "set res = int ` {i. i < length bounds \<and> fst (Limits (bounds ! i)) \<le> val
                                   \<and> val \<le> snd (Limits (bounds ! i))}"
    by blast
  have "\<forall>p\<in>set res. 0 \<le> p \<and> p < int (length bounds)
                \<and> fst (Limits (bounds ! nat p)) \<le> val \<and> val \<le> snd (Limits (bounds ! nat p))"
    unfolding r by auto
  with t len bij q show ?thesis by blast
qed

theorem indexes_bijection_and_round_trip_witness:
  "NewINTree (\<lambda>k. k) 0 [Bounds 4 6, Bounds 6 9]
     = Inr \<lparr>indexes = [0, 1], limits = [4, 6, 6, 6, 9, 9]\<rparr>
   \<and> bij_betw (\<lambda>i. [0, 1] ! i) {0..<2} {0..<(2::int)}
   \<and> Including \<lparr>indexes = [0, 1], limits = [4, 6, 6, 6, 9, 9]\<rparr> 6 = Some (Inr [1, 0])
   \<and> (0::int) \<le> 1 \<and> (1::int) < int (length [Bounds 4 6, Bounds 6 9])
   \<and> fst (Limits ([Bounds 4 6, Bounds 6 9] ! nat 1)) \<le> 6
   \<and> 6 \<le> snd (Limits ([Bounds 4 6, Bounds 6 9] ! nat 1))"
proof -
  let ?T = "\<lparr>indexes = [0, 1], limits = [4, 6, 6, 6, 9, 9]\<rparr>"
  let ?B = "[Bounds 4 6, Bounds 6 9]"
  have e: "NewINTree (\<lambda>k. k) 0 ?B = Inr ?T"
    by code_simp
  have q: "Including ?T 6 = Some (Inr [1, 0])"
    by code_simp
  from indexes_bijection_and_round_trip [of "\<lambda>k. k" 0 ?B 6]
  obtain t res where t: "NewINTree (\<lambda>k. k) 0 ?B = Inr t"
    and b: "bij_betw (\<lambda>i. indexes t ! i) {0..<length ?B} {0..<int (length ?B)}"
    and r: "Including t 6 = Some (Inr res)"
    and rt: "\<forall>p\<in>set res. 0 \<le> p \<and> p < int (length ?B)
                 \<and> fst (Limits (?B ! nat p)) \<le> 6 \<and> 6 \<le> snd (Limits (?B ! nat p))"
    by blast
  from t have tT: "t = ?T" unfolding e by simp
  from b have b': "bij_betw (\<lambda>i. [0, 1] ! i) {0..<2} {0..<(2::int)}"
    unfolding tT by (simp add: numeral_2_eq_2)
  from r have "Including ?T 6 = Some (Inr res)" unfolding tT .
  then have "res = [1, 0]" unfolding q by simp
  then have "1 \<in> set res" by simp
  from rt [rule_format, OF this]
  have c: "(0::int) \<le> 1 \<and> (1::int) < int (length ?B)
     \<and> fst (Limits (?B ! nat 1)) \<le> 6 \<and> 6 \<le> snd (Limits (?B ! nat 1))" .
  from e b' q c show ?thesis by (intro conjI) simp_all
qed

text \<open>
  Claim C7. Construction accepts every collection, also one with intervals whose lower
  limit exceeds the upper limit, and reports no error; the position of such an interval
  is never among the results of a query.
\<close>

theorem malformed_interval_never_returned:
  "\<exists>t res. NewINTree rand k bounds = Inr t \<and> Including t val = Some (Inr res)
     \<and> (\<forall>p<length bounds.
           snd (Limits (bounds ! p)) < fst (Limits (bounds ! p)) \<longrightarrow> int p \<notin> set res)"
proof -
  from NewINTree_built [of rand k bounds] obtain t where
    t: "NewINTree rand k bounds = Inr t" and wb: "well_built Limits bounds t" by blast
  from well_built_query [OF wb, of val] obtain res where
    q: "Including t val = Some (Inr res)"
    and r: "set res = int ` {i. i < length bounds \<and> fst (Limits (bounds ! i)) \<le> val
                                   \<and> val \<le> snd (Limits (bounds ! i))}"
    by blast
  have "int p \<notin> set res" if "snd (Limits (bounds ! p)) < fst (Limits (bounds ! p))" for p
    unfolding r using that by auto
  with t q show ?thesis by blast
qed

theorem malformed_interval_never_returned_witness:
  "NewINTree (\<lambda>k. 0) 0 [Bounds 6 9, Bounds 4 6, Bounds 7 5]
     = Inr \<lparr>indexes = [1, 0, 2], limits = [4, 6, 6, 6, 9, 9, 7, 5, 5]\<rparr>
   \<and> Including \<lparr>indexes = [1, 0, 2], limits = [4, 6, 6, 6, 9, 9, 7, 5, 5]\<rparr> 6 = Some (Inr [0, 1])
   \<and> snd (Limits ([Bounds 6 9, Bounds 4 6, Bounds 7 5] ! 2))
       < fst (Limits ([Bounds 6 9, Bounds 4 6, Bounds 7 5] ! 2))
   \<and> int 2 \<notin> set [0, 1]"
proof -
  let ?T = "\<lparr>indexes = [1, 0, 2], limits = [4, 6, 6, 6, 9, 9, 7, 5, 5]\<rparr>"
  let ?B = "[Bounds 6 9, Bounds 4 6, Bounds 7 5]"
  have e: "NewINTree (\<lambda>k. 0) 0 ?B = Inr ?T"
    by code_simp
  have q: "Including ?T 6 = Some (Inr [0, 1])"
    by code_simp
  have h: "snd (Limits (?B ! 2)) < fst (Limits (?B ! 2))"
    by simp
  have p: "2 < length ?B" by simp
  from malformed_interval_never_returned [of "\<lambda>k. 0" 0 ?B 6]
  obtain t res where t: "NewINTree (\<lambda>k. 0) 0 ?B = Inr t"
    and r: "Including t 6 = Some (Inr res)"
    and m: "\<forall>p<length ?B. snd (Limits (?B ! p)) < fst (Limits (?B ! p)) \<longrightarrow> int p \<notin> set res"
    by blast
  from t have "t = ?T" unfolding e by simp
  with r have "Including ?T 6 = Some (Inr res)" by simp
  then have "res = [0, 1]" unfolding q by simp
  moreover from m [rule_format, OF p h] have "int 2 \<notin> set res" .
  ultimately have "int 2 \<notin> set [0, 1]" by simp
  with e q h show ?thesis by (intro conjI)
qed

text \<open>
  Claim C8. The index never looks at the satellite value: two collections of
  \<open>ValuedBounds\<close> with the same limits, whatever their values, give the same index
  under the same pivot choices, and so the same answer to every query.
\<close>

theorem NewINTreeV_ignores_Value:
  "map LimitsV xs = map LimitsV ys \<longrightarrow>
     NewINTreeV rand k xs = NewINTreeV rand k ys
     \<and> (\<exists>t. NewINTreeV rand k xs = Inr t)
     \<and> (\<forall>t t'. NewINTreeV rand k xs = Inr t \<and> NewINTreeV rand k ys = Inr t' \<longrightarrow>
           Including t val = Including t' val)"
proof
  assume a: "map LimitsV xs = map LimitsV ys"
  then have "length (map LimitsV xs) = length (map LimitsV ys)" by (simp only:)
  then have len: "length xs = length ys" by simp
  have e: "NewINTreeV rand k xs = NewINTreeV rand k ys"
    unfolding NewINTreeV_def buildTreeV_def
    by (simp only: fill_loop_map [of LimitsV] a len)
  from NewINTreeV_built [of rand k xs] have "\<exists>t. NewINTreeV rand k xs = Inr t" by blast
  with e show "NewINTreeV rand k xs = NewINTreeV rand k ys
    \<and> (\<exists>t. NewINTreeV rand k xs = Inr t)
    \<and> (\<forall>t t'. NewINTreeV rand k xs = Inr t \<and> NewINTreeV rand k ys = Inr t' \<longrightarrow>
          Including t val = Including t' val)" by auto
qed

theorem NewINTreeV_ignores_Value_witness:
  "map LimitsV [ValuedBounds 4 6 (1::nat), ValuedBounds 1 3 2]
     = map LimitsV [ValuedBounds 4 6 ''a'', ValuedBounds 1 3 ''b'']
   \<and> NewINTreeV (\<lambda>k. k) 0 [ValuedBounds 4 6 (1::nat), ValuedBounds 1 3 2]
     = Inr \<lparr>indexes = [1, 0], limits = [1, 3, 3, 4, 6, 6]\<rparr>
   \<and> NewINTreeV (\<lambda>k. k) 0 [ValuedBounds 4 6 ''a'', ValuedBounds 1 3 ''b'']
     = Inr \<lparr>indexes = [1, 0], limits = [1, 3, 3, 4, 6, 6]\<rparr>"
proof -
  let ?xs = "[ValuedBounds 4 6 (1::nat), ValuedBounds 1 3 2]"
  let ?ys = "[ValuedBounds 4 6 ''a'', ValuedBounds 1 3 ''b'']"
  have h: "map LimitsV ?xs = map LimitsV ?ys" by simp
  have e: "NewINTreeV (\<lambda>k. k) 0 ?xs = Inr \<lparr>indexes = [1, 0], limits = [1, 3, 3, 4, 6, 6]\<rparr>"
    by code_simp
  from NewINTreeV_ignores_Value [of ?xs ?ys "\<lambda>k. k" 0 0] h
  have "NewINTreeV (\<lambda>k. k) 0 ?xs = NewINTreeV (\<lambda>k. k) 0 ?ys" by blast
  with e have "NewINTreeV (\<lambda>k. k) 0 ?ys = Inr \<lparr>indexes = [1, 0], limits = [1, 3, 3, 4, 6, 6]\<rparr>"
    by simp
  with h e show ?thesis by (intro conjI)
qed

text \<open>
  Claim C9. The slice that \<open>Including\<close> returns has no duplicates: every position of
  the caller's collection occurs in it at most once.
\<close>

theorem Including_no_duplicates:
  "\<exists>t res. NewINTree rand k bounds = Inr t \<and> Including t val = Some (Inr res) \<and> distinct res"
proof -
  from NewINTree_built [of rand k bounds] obtain t where
    t: "NewINTree rand k bounds = Inr t" and wb: "well_built Limits bounds t" by blast
  from well_built_query [OF wb, of val] t show ?thesis by blast
qed

theorem Including_no_duplicates_witness:
  "NewINTree (\<lambda>k. 3 * k) 0 [Bounds 4 6, Bounds 4 6]
     = Inr \<lparr>indexes = [0, 1], limits = [4, 6, 6, 4, 6, 6]\<rparr>
   \<and> Including \<lparr>indexes = [0, 1], limits = [4, 6, 6, 4, 6, 6]\<rparr> 5 = Some (Inr [1, 0])
   \<and> distinct [1, 0::int]"
proof -
  let ?T = "\<lparr>indexes = [0, 1], limits = [4, 6, 6, 4, 6, 6]\<rparr>"
  have e: "NewINTree (\<lambda>k. 3 * k) 0 [Bounds 4 6, Bounds 4 6] = Inr ?T"
    by code_simp
  have q: "Including ?T 5 = Some (Inr [1, 0])"
    by code_simp
  from Including_no_duplicates [of "\<lambda>k. 3 * k" 0 "[Bounds 4 6, Bounds 4 6]" 5]
  obtain t res where t: "NewINTree (\<lambda>k. 3 * k) 0 [Bounds 4 6, Bounds 4 6] = Inr t"
    and r: "Including t 5 = Some (Inr res)" and d: "distinct res" by blast
  from t have "t = ?T" unfolding e by simp
  with r have "Including ?T 5 = Some (Inr res)" by simp
  then have "res = [1, 0]" unfolding q by simp
  with d have "distinct [1, 0::int]" by simp
  with e q show ?thesis by (intro conjI)
qed

text \<open>
  Claim C10. \<open>Including\<close> is total and never reads outside a slice. On every built
  index, the empty one included, the loop ends and returns a slice. In every state the
  loop reaches, the stack is a sequence of ranges \<open>(l, r)\<close> with \<open>0 \<le> l\<close>,
  \<open>r \<le> n - 1\<close> and \<open>l \<le> r + 1\<close>, and the next round does not panic: its pops and
  its reads of \<open>limits\<close> and \<open>indexes\<close> are in bounds.
\<close>

theorem Including_total_and_in_bounds:
  "\<exists>t. NewINTree rand k bounds = Inr t
     \<and> (\<exists>res. Including t val = Some (Inr res))
     \<and> (\<forall>j s. Including_state t val j = Some s \<longrightarrow>
           ranges_ok (length (indexes t)) (fst s)
           \<and> (fst s \<noteq> [] \<longrightarrow> (\<exists>s'. Including_step t val s = Inr s')))"
proof -
  from NewINTree_built [of rand k bounds] obtain t where
    t: "NewINTree rand k bounds = Inr t" and wb: "well_built Limits bounds t" by blast
  from wb have wf: "length (limits t) = 3 * length (indexes t)" by (simp add: well_built_def)
  from well_built_query [OF wb, of val] have q: "\<exists>res. Including t val = Some (Inr res)" by blast
  have "ranges_ok (length (indexes t)) (fst s)
          \<and> (fst s \<noteq> [] \<longrightarrow> (\<exists>s'. Including_step t val s = Inr s'))"
    if "Including_state t val j = Some s" for j s
    using Including_state_ranges_ok [OF wf that] Including_step_ranges_ok [OF wf, of s val] by blast
  with t q show ?thesis by blast
qed

theorem Including_total_and_in_bounds_witness:
  "NewINTree (\<lambda>k. k) 0 [Bounds 4 6, Bounds 6 9, Bounds 9 11]
       = Inr \<lparr>indexes = [0, 1, 2], limits = [4, 6, 6, 6, 9, 11, 9, 11, 11]\<rparr>
   \<and> Including_state \<lparr>indexes = [0, 1, 2], limits = [4, 6, 6, 6, 9, 11, 9, 11, 11]\<rparr> 6 4
       = Some ([0, - 1, 1, 0], [1, 0])
   \<and> ranges_ok 3 [0, - 1, 1, 0]
   \<and> (\<exists>s'. Including_step \<lparr>indexes = [0, 1, 2], limits = [4, 6, 6, 6, 9, 11, 9, 11, 11]\<rparr> 6
          ([0, - 1, 1, 0], [1, 0]) = Inr s')
   \<and> NewINTree (\<lambda>k. k) 0 [] = Inr \<lparr>indexes = [], limits = []\<rparr>
   \<and> Including_state \<lparr>indexes = [], limits = []\<rparr> 6 0 = Some ([0, - 1], [])
   \<and> ranges_ok 0 [0, - 1]
   \<and> (\<exists>res. Including \<lparr>indexes = [], limits = []\<rparr> 6 = Some (Inr res))"
proof -
  let ?T = "\<lparr>indexes = [0, 1, 2], limits = [4, 6, 6, 6, 9, 11, 9, 11, 11]\<rparr>"
  let ?B = "[Bounds 4 6, Bounds 6 9, Bounds 9 11]"
  let ?E = "\<lparr>indexes = [], limits = []\<rparr>"
  have e: "NewINTree (\<lambda>k. k) 0 ?B = Inr ?T"
    by code_simp
  have st: "Including_state ?T 6 4 = Some ([0, - 1, 1, 0], [1, 0])"
    by code_simp
  from Including_total_and_in_bounds [of "\<lambda>k. k" 0 ?B 6]
  obtain t where t: "NewINTree (\<lambda>k. k) 0 ?B = Inr t"
    and inv: "\<forall>j s. Including_state t 6 j = Some s \<longrightarrow>
           ranges_ok (length (indexes t)) (fst s)
           \<and> (fst s \<noteq> [] \<longrightarrow> (\<exists>s'. Including_step t 6 s = Inr s'))"
    by blast
  from t have tT: "t = ?T" unfolding e by simp
  from inv [rule_format, of 4 "([0, - 1, 1, 0], [1, 0])"] st
  have "ranges_ok (length (indexes ?T)) (fst ([0, - 1, 1, 0], [1::int, 0]))
           \<and> (fst ([0::int, - 1, 1, 0], [1::int, 0]) \<noteq> [] \<longrightarrow>
                (\<exists>s'. Including_step ?T 6 ([0, - 1, 1, 0], [1, 0]) = Inr s'))"
    unfolding tT by simp
  then have r: "ranges_ok 3 [0, - 1, 1, 0]"
    and n: "\<exists>s'. Including_step ?T 6 ([0, - 1, 1, 0], [1, 0]) = Inr s'"
    by simp_all
  have e0: "NewINTree (\<lambda>k. k) 0 [] = Inr ?E"
    by code_simp
  have st0: "Including_state ?E 6 0 = Some ([0, - 1], [])" by simp
  from Including_total_and_in_bounds [of "\<lambda>k. k" 0 "[]" 6]
  obtain t0 where t0: "NewINTree (\<lambda>k. k) 0 [] = Inr t0"
    and tot0: "\<exists>res. Including t0 6 = Some (Inr res)"
    and inv0: "\<forall>j s. Including_state t0 6 j = Some s \<longrightarrow>
           ranges_ok (length (indexes t0)) (fst s)
           \<and> (fst s \<noteq> [] \<longrightarrow> (\<exists>s'. Including_step t0 6 s = Inr s'))"
    by blast
  from t0 have tE: "t0 = ?E" unfolding e0 by simp
  from inv0 [rule_format, of 0 "([0, - 1], [])"] st0
  have r0: "ranges_ok 0 [0, - 1]" unfolding tE by simp
  from tot0 have q0: "\<exists>res. Including ?E 6 = Some (Inr res)" unfolding tE .
  from e st r n e0 st0 r0 q0 show ?thesis by (intro conjI)
qed

end
